theory Spec2Isabelle
  imports Main "HOL-Library.Word" "HOL-Library.Monad_Syntax" "HOL-Library.List_Lexorder"
    "HOL-Library.Char_ord" "HOL-Library.FSet"
begin

unbundle bit_operations_syntax

section \<open>Bytes, strings and hashes (common.h, hash.c)\<close>

text \<open>
  A \<open>Hash\<close> is the C struct \<open>{ uint8_t bytes[32]; }\<close>: a list of bytes, 32 of them in every
  value the program builds. A \<open>string\<close> stands for a NUL-terminated C string, so it holds
  no NUL character; \<open>bytes_of\<close> gives the \<open>strlen\<close> bytes that the C code passes on.
\<close>

type_synonym byte = "8 word"
type_synonym Hash = "byte list"

definition byte_of_char :: "char \<Rightarrow> byte" where
  "byte_of_char c = of_nat (of_char c)"

definition char_of_byte :: "byte \<Rightarrow> char" where
  "char_of_byte b = char_of (unat b)"

definition bytes_of :: "string \<Rightarrow> byte list" where
  "bytes_of s = map byte_of_char s"

text \<open>\<open>strdup\<close> of a buffer: the characters before the first NUL byte.\<close>

definition c_string :: "byte list \<Rightarrow> string" where
  "c_string bs = map char_of_byte (takeWhile (\<lambda>b. b \<noteq> 0) bs)"

definition valid_c_string :: "string \<Rightarrow> bool" where
  "valid_c_string s = (CHR 0x00 \<notin> set s)"

definition zero_hash :: Hash where
  "zero_hash = replicate 32 0"

text \<open>\<open>hash_equal\<close>: \<open>memcmp\<close> over the 32 bytes.\<close>

definition hash_equal :: "Hash \<Rightarrow> Hash \<Rightarrow> bool" where
  "hash_equal a b = (a = b)"

text \<open>\<open>hash_combine\<close>: \<open>dest->bytes[i] ^= src->bytes[i]\<close> for each of the 32 bytes.\<close>

definition hash_combine :: "Hash \<Rightarrow> Hash \<Rightarrow> Hash" where
  "hash_combine dest src = map2 (XOR) dest src"

text \<open>
  \<open>hash_data\<close> calls the one-shot BLAKE2b of the vendored library (32 bytes of output, no
  key). The library is not part of the sources, so the digest function is a parameter
  \<open>H\<close> of everything that hashes.
\<close>

type_synonym hasher = "byte list \<Rightarrow> Hash"

definition hash_data :: "hasher \<Rightarrow> byte list \<Rightarrow> Hash" where
  "hash_data H data = H data"

text \<open>\<open>hash_to_hex\<close>: two lowercase hexadecimal digits per byte (\<open>sprintf "%02x"\<close>).\<close>

definition hex_digit :: "nat \<Rightarrow> char" where
  "hex_digit n = ''0123456789abcdef'' ! (n mod 16)"

definition hash_to_hex :: "Hash \<Rightarrow> string" where
  "hash_to_hex h = concat (map (\<lambda>b. [hex_digit (unat b div 16), hex_digit (unat b)]) h)"

section \<open>The file system\<close>

text \<open>
  What \<open>stat\<close>, \<open>fopen\<close>, \<open>opendir\<close> and \<open>readdir\<close> see at a path: a regular file with its
  bytes, a regular file that cannot be opened, a directory with its entries (\<open>.\<close> and
  \<open>..\<close> left out) in \<open>readdir\<close> order, a directory that cannot be opened, or something
  that is neither. \<open>avail\<close> is the number of bytes the device still accepts, and
  \<open>blksize\<close> the size of the buffer that the C library gives a stream opened on a file
  of this file system.
\<close>

datatype node =
    File "byte list"
  | NoPermFile
  | Dir "(string \<times> node) list"
  | NoPermDir
  | Special

record filesys =
  nodes :: "string \<rightharpoonup> node"
  avail :: nat
  blksize :: nat

definition stat :: "filesys \<Rightarrow> string \<Rightarrow> node option" where
  "stat fs path = nodes fs path"

fun S_ISREG :: "node \<Rightarrow> bool" where
  "S_ISREG (File _) = True"
| "S_ISREG NoPermFile = True"
| "S_ISREG _ = False"

fun S_ISDIR :: "node \<Rightarrow> bool" where
  "S_ISDIR (Dir _) = True"
| "S_ISDIR NoPermDir = True"
| "S_ISDIR _ = False"

text \<open>
  \<open>hash_file\<close>: BLAKE2b over the chunks read from the file, which is the digest of its
  contents; false when \<open>fopen\<close> or \<open>fread\<close> fails.
\<close>

fun hash_file_node :: "hasher \<Rightarrow> node \<Rightarrow> Hash option" where
  "hash_file_node H (File bs) = Some (H bs)"
| "hash_file_node H _ = None"

definition hash_file :: "hasher \<Rightarrow> filesys \<Rightarrow> string \<Rightarrow> Hash option" where
  "hash_file H fs path = (case nodes fs path of None \<Rightarrow> None | Some n \<Rightarrow> hash_file_node H n)"

text \<open>
  \<open>hash_tree\<close>: a regular file is hashed by \<open>hash_file\<close>; for a directory the entries other
  than \<open>.\<close> and \<open>..\<close> are sorted by name (\<open>qsort\<close> with \<open>strcmp\<close>) and folded into an
  accumulator that starts as zero: the hash of the name, then the hash of the child when
  it can be hashed (an unhashable child is skipped).
\<close>

fun hash_tree_node :: "hasher \<Rightarrow> node \<Rightarrow> Hash option" where
  "hash_tree_node H (File bs) = hash_file_node H (File bs)"
| "hash_tree_node H NoPermFile = hash_file_node H NoPermFile"
| "hash_tree_node H Special = None"
| "hash_tree_node H NoPermDir = None"
| "hash_tree_node H (Dir entries) =
     Some (fold (\<lambda>e out.
                   let out1 = hash_combine out (hash_data H (bytes_of (fst e)))
                   in (case hash_tree_node H (snd e) of
                         Some entry_hash \<Rightarrow> hash_combine out1 entry_hash
                       | None \<Rightarrow> out1))
                (sort_key fst (filter (\<lambda>e. fst e \<noteq> ''.'' \<and> fst e \<noteq> ''..'') entries))
                zero_hash)"

definition hash_tree :: "hasher \<Rightarrow> filesys \<Rightarrow> string \<Rightarrow> Hash option" where
  "hash_tree H fs path = (case stat fs path of None \<Rightarrow> None | Some n \<Rightarrow> hash_tree_node H n)"

section \<open>Traces (trace.h, trace.c)\<close>

text \<open>
  The struct's \<open>dep_count\<close>, \<open>dep_paths\<close> and \<open>dep_hashes\<close> are one list: the parallel
  arrays are written only by \<open>trace_create\<close> and \<open>trace_add_dependency\<close>, which keep them
  \<open>dep_count\<close> long.
\<close>

record Trace =
  request_key :: Hash
  deps :: "(string \<times> Hash) list"
  output_tree_hash :: Hash
  cpu_time_ms :: "64 word"
  wall_time_ms :: "64 word"

definition dep_count :: "Trace \<Rightarrow> nat" where
  "dep_count t = length (deps t)"

definition dep_paths :: "Trace \<Rightarrow> string list" where
  "dep_paths t = map fst (deps t)"

definition dep_hashes :: "Trace \<Rightarrow> Hash list" where
  "dep_hashes t = map snd (deps t)"

definition trace_create :: "Hash \<Rightarrow> Trace" where
  "trace_create key =
     \<lparr>request_key = key, deps = [], output_tree_hash = zero_hash,
      cpu_time_ms = 0, wall_time_ms = 0\<rparr>"

definition trace_add_dependency :: "Trace \<Rightarrow> string \<Rightarrow> Hash \<Rightarrow> Trace" where
  "trace_add_dependency t path h = t\<lparr>deps := deps t @ [(path, h)]\<rparr>"

subsection \<open>Validation\<close>

text \<open>
  \<open>trace_validate\<close> returns its verdict; the model returns with it the calls of
  \<open>hash_file\<close> and \<open>hash_tree\<close> that the loop made, in order.
\<close>

datatype hash_call = Hash_file string | Hash_tree string

fun validate_deps :: "hasher \<Rightarrow> filesys \<Rightarrow> (string \<times> Hash) list \<Rightarrow> bool \<times> hash_call list" where
  "validate_deps H fs [] = (True, [])"
| "validate_deps H fs ((path, expected_hash) # rest) =
     (case stat fs path of
        None \<Rightarrow> (False, [])
      | Some st \<Rightarrow>
          if S_ISDIR st then
            (case hash_tree H fs path of
               None \<Rightarrow> (False, [Hash_tree path])
             | Some actual_hash \<Rightarrow>
                 if \<not> hash_equal actual_hash expected_hash then (False, [Hash_tree path])
                 else (fst (validate_deps H fs rest),
                       Hash_tree path # snd (validate_deps H fs rest)))
          else if S_ISREG st then
            (case hash_file H fs path of
               None \<Rightarrow> (False, [Hash_file path])
             | Some actual_hash \<Rightarrow>
                 if \<not> hash_equal actual_hash expected_hash then (False, [Hash_file path])
                 else (fst (validate_deps H fs rest),
                       Hash_file path # snd (validate_deps H fs rest)))
          else (False, []))"

definition trace_validate :: "hasher \<Rightarrow> filesys \<Rightarrow> Trace \<Rightarrow> bool \<times> hash_call list" where
  "trace_validate H fs t = validate_deps H fs (deps t)"

text \<open>
  The specification's words for one dependency: its current hash is \<open>hash_file\<close> of a
  regular file and \<open>hash_tree\<close> of a directory; it matches when that hash exists and is
  the recorded one; it mismatches when the path can be hashed and does not match.
\<close>

definition current_hash :: "hasher \<Rightarrow> filesys \<Rightarrow> string \<Rightarrow> Hash option" where
  "current_hash H fs path =
     (case stat fs path of
        None \<Rightarrow> None
      | Some st \<Rightarrow> if S_ISDIR st then hash_tree H fs path
                  else if S_ISREG st then hash_file H fs path else None)"

definition dep_matches :: "hasher \<Rightarrow> filesys \<Rightarrow> string \<times> Hash \<Rightarrow> bool" where
  "dep_matches H fs d = (current_hash H fs (fst d) = Some (snd d))"

definition hash_calls_on :: "filesys \<Rightarrow> string \<Rightarrow> hash_call list" where
  "hash_calls_on fs path =
     (case stat fs path of
        None \<Rightarrow> []
      | Some st \<Rightarrow> if S_ISDIR st then [Hash_tree path]
                  else if S_ISREG st then [Hash_file path] else [])"

definition dep_mismatches :: "hasher \<Rightarrow> filesys \<Rightarrow> string \<times> Hash \<Rightarrow> bool" where
  "dep_mismatches H fs d = (hash_calls_on fs (fst d) \<noteq> [] \<and> \<not> dep_matches H fs d)"

subsection \<open>The trace store (storage.h, storage.c)\<close>

record Storage =
  base_dir :: string
  traces_dir :: string
  objects_dir :: string
  tmp_dir :: string

definition build_sharded_path :: "string \<Rightarrow> string \<Rightarrow> string" where
  "build_sharded_path base hex_hash = base @ ''/'' @ take 2 hex_hash @ ''/'' @ drop 2 hex_hash"

text \<open>
  \<open>storage_get_trace_path\<close> also creates the shard directory when it is missing
  (\<open>ensure_shard_directory\<close>). Directory creation is not modelled: the directories of the
  store, which \<open>storage_init\<close> creates, are taken to exist and to be writable. What is
  modelled is the trace file itself: whether it can be opened, and how much of it can be
  written.
\<close>

definition storage_get_trace_path :: "Storage \<Rightarrow> Hash \<Rightarrow> string" where
  "storage_get_trace_path s key = build_sharded_path (traces_dir s) (hash_to_hex key)"

definition storage_trace_exists :: "filesys \<Rightarrow> Storage \<Rightarrow> Hash \<Rightarrow> bool" where
  "storage_trace_exists fs s key =
     (case stat fs (storage_get_trace_path s key) of None \<Rightarrow> False | Some st \<Rightarrow> S_ISREG st)"

subsection \<open>The binary format\<close>

text \<open>
  Integers are written from memory (\<open>fwrite(&version, ...)\<close>): least significant byte
  first on the little-endian machines the program is built for.
\<close>

definition le_bytes :: "nat \<Rightarrow> 'a::len word \<Rightarrow> byte list" where
  "le_bytes n w = map (\<lambda>i. ucast (drop_bit (8 * i) w)) [0..<n]"

definition le_word :: "byte list \<Rightarrow> 'a::len word" where
  "le_word bs = foldr (\<lambda>b acc. ucast b OR push_bit 8 acc) bs 0"

definition TRACE_MAGIC :: "byte list" where
  "TRACE_MAGIC = bytes_of ''RBTR''"

definition TRACE_VERSION :: "32 word" where
  "TRACE_VERSION = 1"

subsection \<open>Saving\<close>

text \<open>
  An output stream of the C library: the bytes that have reached the file, the bytes that
  are still in the buffer of the stream, the room left on the device and the size of the
  buffer. \<open>fwrite\<close> copies into the buffer and reports every byte as written; only when
  the buffer would overflow does it write to the device, and only then can it come up
  short. \<open>fflush_w\<close> writes the buffer to the device as far as there is room and keeps
  the rest. \<open>fclose\<close> writes what is left in the buffer and reports whether all of it
  reached the file.
\<close>

record wfile =
  wbytes :: "byte list"
  wbuffer :: "byte list"
  wspace :: nat
  wbufsize :: nat

definition fopen_wb :: "filesys \<Rightarrow> string \<Rightarrow> wfile option" where
  "fopen_wb fs path =
     (case nodes fs path of
        None \<Rightarrow> Some \<lparr>wbytes = [], wbuffer = [], wspace = avail fs, wbufsize = blksize fs\<rparr>
      | Some (File _) \<Rightarrow> Some \<lparr>wbytes = [], wbuffer = [], wspace = avail fs, wbufsize = blksize fs\<rparr>
      | Some _ \<Rightarrow> None)"

definition fflush_w :: "wfile \<Rightarrow> wfile" where
  "fflush_w f =
     f\<lparr>wbytes := wbytes f @ take (wspace f) (wbuffer f),
       wbuffer := drop (wspace f) (wbuffer f),
       wspace := wspace f - length (wbuffer f)\<rparr>"

definition fwrite :: "wfile \<Rightarrow> byte list \<Rightarrow> nat \<times> wfile" where
  "fwrite f data =
     (if length (wbuffer f) + length data \<le> wbufsize f
      then (length data, f\<lparr>wbuffer := wbuffer f @ data\<rparr>)
      else let f' = fflush_w (f\<lparr>wbuffer := wbuffer f @ data\<rparr>)
           in (length data - length (wbuffer f'), f'))"

definition fclose_w :: "filesys \<Rightarrow> string \<Rightarrow> wfile \<Rightarrow> bool \<times> filesys" where
  "fclose_w fs path f =
     (let f' = fflush_w f
      in (wbuffer f' = [],
          fs\<lparr>nodes := (nodes fs)(path \<mapsto> File (wbytes f')), avail := wspace f'\<rparr>))"

text \<open>
  \<open>write_all\<close> of trace.c: one \<open>fwrite\<close>, and true when it reports as many bytes as were
  asked for.
\<close>

definition write_all :: "wfile \<Rightarrow> byte list \<Rightarrow> bool \<times> wfile" where
  "write_all f data = (case fwrite f data of (written, f') \<Rightarrow> (written = length data, f'))"

text \<open>
  \<open>trace_save\<close> is a sequence of \<open>write_all\<close> calls, each followed by
  \<open>success = false; goto cleanup\<close> when it fails. \<open>trace_writes\<close> lists the buffers of
  these calls in order; \<open>write_each\<close> performs them up to the first failure. At
  \<open>cleanup\<close> the stream is closed and the result of \<open>fclose\<close> is not looked at: the
  function returns \<open>success\<close> as the \<open>write_all\<close> calls left it.
\<close>

fun write_each :: "wfile \<Rightarrow> byte list list \<Rightarrow> bool \<times> wfile" where
  "write_each f [] = (True, f)"
| "write_each f (data # later) =
     (case write_all f data of
        (False, f') \<Rightarrow> (False, f')
      | (True, f') \<Rightarrow> write_each f' later)"

definition dep_writes :: "string \<times> Hash \<Rightarrow> byte list list" where
  "dep_writes d =
     (let path = fst d;
          path_len = (of_nat (length path) :: 32 word)
      in [le_bytes 4 path_len, take (unat path_len) (bytes_of path), snd d])"

definition trace_writes :: "Trace \<Rightarrow> byte list list" where
  "trace_writes t =
     [TRACE_MAGIC, le_bytes 4 TRACE_VERSION, request_key t,
      le_bytes 8 (of_nat (dep_count t) :: 64 word)]
     @ concat (map dep_writes (deps t))
     @ [output_tree_hash t, le_bytes 8 (cpu_time_ms t), le_bytes 8 (wall_time_ms t)]"

definition trace_save :: "filesys \<Rightarrow> Storage \<Rightarrow> Trace \<Rightarrow> bool \<times> filesys" where
  "trace_save fs store t =
     (let trace_path = storage_get_trace_path store (request_key t)
      in case fopen_wb fs trace_path of
           None \<Rightarrow> (False, fs)
         | Some f \<Rightarrow>
             (case write_each f (trace_writes t) of
                (success, f') \<Rightarrow> (success, snd (fclose_w fs trace_path f'))))"

subsection \<open>Loading\<close>

text \<open>An input stream is the list of bytes not read yet.\<close>

definition fopen_rb :: "filesys \<Rightarrow> string \<Rightarrow> byte list option" where
  "fopen_rb fs path = (case nodes fs path of Some (File bs) \<Rightarrow> Some bs | _ \<Rightarrow> None)"

definition read_all :: "byte list \<Rightarrow> nat \<Rightarrow> (byte list \<times> byte list) option" where
  "read_all f sz = (if sz \<le> length f then Some (take sz f, drop sz f) else None)"

text \<open>
  The loop over the dependencies of the file, counting down the entries still to read.
  The path goes through \<open>trace_add_dependency\<close>, whose \<open>strdup\<close> keeps the characters
  before the first NUL.
\<close>

fun read_deps :: "nat \<Rightarrow> byte list \<Rightarrow> Trace \<Rightarrow> (Trace \<times> byte list) option" where
  "read_deps 0 f t = Some (t, f)"
| "read_deps (Suc n) f t =
     do {
       (len_bytes, f1) \<leftarrow> read_all f 4;
       let path_len = (le_word len_bytes :: 32 word);
       if path_len > 4096 then None
       else do {
         (path, f2) \<leftarrow> read_all f1 (unat path_len);
         (hash, f3) \<leftarrow> read_all f2 32;
         read_deps n f3 (trace_add_dependency t (c_string path) hash)
       }
     }"

definition read_trace :: "Hash \<Rightarrow> byte list \<Rightarrow> Trace option" where
  "read_trace key f =
     do {
       (magic, f1) \<leftarrow> read_all f 4;
       if magic \<noteq> TRACE_MAGIC then None
       else do {
         (version, f2) \<leftarrow> read_all f1 4;
         if (le_word version :: 32 word) \<noteq> TRACE_VERSION then None
         else do {
           let t = trace_create key;
           (stored_key, f3) \<leftarrow> read_all f2 32;
           if \<not> hash_equal stored_key key then None
           else do {
             (count, f4) \<leftarrow> read_all f3 8;
             (t1, f5) \<leftarrow> read_deps (unat (le_word count :: 64 word)) f4 t;
             (out_hash, f6) \<leftarrow> read_all f5 32;
             (cpu, f7) \<leftarrow> read_all f6 8;
             (wall, f8) \<leftarrow> read_all f7 8;
             Some (t1\<lparr>output_tree_hash := out_hash, cpu_time_ms := le_word cpu,
                      wall_time_ms := le_word wall\<rparr>)
           }
         }
       }
     }"

definition trace_load :: "filesys \<Rightarrow> Storage \<Rightarrow> Hash \<Rightarrow> Trace option" where
  "trace_load fs store key =
     (let trace_path = storage_get_trace_path store key
      in if \<not> storage_trace_exists fs store key then None
         else case fopen_rb fs trace_path of
                None \<Rightarrow> None
              | Some f \<Rightarrow> read_trace key f)"

subsection \<open>Well-formed traces\<close>

text \<open>
  What the C types guarantee of a \<open>Trace\<close> in memory: hashes of 32 bytes, paths that are
  C strings, a count that fits \<open>size_t\<close>.
\<close>

definition dep_well_formed :: "string \<times> Hash \<Rightarrow> bool" where
  "dep_well_formed d = (valid_c_string (fst d) \<and> length (snd d) = 32)"

definition trace_well_formed :: "Trace \<Rightarrow> bool" where
  "trace_well_formed t =
     (length (request_key t) = 32 \<and> length (output_tree_hash t) = 32 \<and>
      dep_count t < 2 ^ 64 \<and> list_all dep_well_formed (deps t))"

text \<open>The limit that \<open>trace_load\<close> puts on the length of a path.\<close>

definition paths_within_limit :: "Trace \<Rightarrow> bool" where
  "paths_within_limit t = list_all (\<lambda>d. length (fst d) \<le> 4096) (deps t)"

text \<open>
  The path length fields of a trace file, as the format lays them out: after the 48
  bytes of magic, version, request key and count, each of the counted entries is a u32
  length, that many bytes of path and 32 bytes of hash.
\<close>

fun entry_path_lens :: "nat \<Rightarrow> byte list \<Rightarrow> 32 word list" where
  "entry_path_lens 0 bs = []"
| "entry_path_lens (Suc n) bs =
     (if length bs < 4 then []
      else (le_word (take 4 bs) :: 32 word)
           # entry_path_lens n (drop (4 + unat (le_word (take 4 bs) :: 32 word) + 32) bs))"

definition file_magic :: "byte list \<Rightarrow> byte list" where
  "file_magic bs = take 4 bs"

definition file_version :: "byte list \<Rightarrow> 32 word" where
  "file_version bs = le_word (take 4 (drop 4 bs))"

definition file_request_key :: "byte list \<Rightarrow> Hash" where
  "file_request_key bs = take 32 (drop 8 bs)"

definition file_dep_count :: "byte list \<Rightarrow> 64 word" where
  "file_dep_count bs = le_word (take 8 (drop 40 bs))"

definition file_path_lens :: "byte list \<Rightarrow> 32 word list" where
  "file_path_lens bs = entry_path_lens (unat (file_dep_count bs)) (drop 48 bs)"

section \<open>Recipes (set.h, set.c, recipe.h, recipe.c)\<close>

text \<open>
  \<open>Set\<close> is a hash set of strings (open addressing, linear probing). It is modelled by
  the finite set of its values: \<open>set_add\<close> inserts a value and does nothing when the
  value is there already. \<open>set_iterate\<close> calls its callback on the occupied slots in
  table order, an order that depends on the hashes of the values and on the history of the
  table; the model visits the values in increasing order, and no property below depends
  on that choice.
\<close>

type_synonym Set = "string fset"

definition set_create :: Set where
  "set_create = {||}"

definition set_add :: "Set \<Rightarrow> string \<Rightarrow> Set" where
  "set_add s v = finsert v s"

definition set_has :: "Set \<Rightarrow> string \<Rightarrow> bool" where
  "set_has s v = (v |\<in>| s)"

definition set_iterate :: "Set \<Rightarrow> string list" where
  "set_iterate s = sorted_list_of_fset s"

datatype RecipeState =
  RECIPE_PENDING | RECIPE_RUNNING | RECIPE_SUSPENDED | RECIPE_COMPLETE | RECIPE_FAILED

text \<open>
  The struct \<open>Recipe\<close>. Its \<open>request_key\<close> is the field \<open>r_request_key\<close> here; \<open>fiber\<close>
  and \<open>user_data\<close>, which are set to NULL at creation and never written again, are left
  out.
\<close>

record Recipe =
  target_name :: string
  state :: RecipeState
  r_request_key :: Hash
  declared_deps :: Set
  pending_deps :: Set
  output_dir :: "string option"
  temp_dir :: "string option"
  start_time :: "64 word"

definition recipe_create :: "string \<Rightarrow> Recipe" where
  "recipe_create tn =
     \<lparr>target_name = tn, state = RECIPE_PENDING, r_request_key = zero_hash,
      declared_deps = set_create, pending_deps = set_create,
      output_dir = None, temp_dir = None, start_time = 0\<rparr>"

definition recipe_add_dependency :: "Recipe \<Rightarrow> string \<Rightarrow> Recipe" where
  "recipe_add_dependency r dep_path =
     r\<lparr>declared_deps := set_add (declared_deps r) dep_path,
       pending_deps := set_add (pending_deps r) dep_path\<rparr>"

definition recipe_set_output_dir :: "Recipe \<Rightarrow> string \<Rightarrow> Recipe" where
  "recipe_set_output_dir r dir = r\<lparr>output_dir := Some dir\<rparr>"

definition recipe_has_dependency :: "Recipe \<Rightarrow> string \<Rightarrow> bool" where
  "recipe_has_dependency r dep_path = set_has (declared_deps r) dep_path"

text \<open>
  \<open>recipe_compute_request_key\<close>: the key starts as the recipe code hash, the hash of the
  target name is combined into it, the dependencies are collected from the set into an
  array, the array is sorted with \<open>qsort\<close> and \<open>strcmp\<close>, and the hash of each
  dependency is combined into the key in that order. \<open>request_key_of\<close> is the
  computation from the collected array on.
\<close>

definition request_key_of :: "hasher \<Rightarrow> Hash \<Rightarrow> string \<Rightarrow> string list \<Rightarrow> Hash" where
  "request_key_of H recipe_code_hash tn arr =
     fold (\<lambda>dep key. hash_combine key (hash_data H (bytes_of dep)))
          (sort arr)
          (hash_combine recipe_code_hash (hash_data H (bytes_of tn)))"

definition recipe_compute_request_key :: "hasher \<Rightarrow> Recipe \<Rightarrow> Hash \<Rightarrow> Recipe" where
  "recipe_compute_request_key H r recipe_code_hash =
     r\<lparr>r_request_key :=
         request_key_of H recipe_code_hash (target_name r) (set_iterate (declared_deps r))\<rparr>"

text \<open>
  The request key as the specification composes it: the recipe code hash, the hash of the
  target name, the hash of every declared dependency in sorted order, and the module hash
  and binary hash of every loaded tool, all combined by XOR.
\<close>

definition specified_request_key ::
  "hasher \<Rightarrow> Hash \<Rightarrow> string \<Rightarrow> Set \<Rightarrow> (Hash \<times> Hash) list \<Rightarrow> Hash" where
  "specified_request_key H recipe_code_hash tn declared tools =
     fold (\<lambda>tool key. hash_combine (hash_combine key (fst tool)) (snd tool)) tools
       (fold (\<lambda>dep key. hash_combine key (H (bytes_of dep))) (sorted_list_of_fset declared)
          (hash_combine recipe_code_hash (H (bytes_of tn))))"

section \<open>The scheduler (scheduler.h, scheduler.c)\<close>

datatype RebuildError =
    REBUILD_OK | REBUILD_ERROR_IO | REBUILD_ERROR_MEMORY | REBUILD_ERROR_PARSE
  | REBUILD_ERROR_EXEC | REBUILD_ERROR_HASH | REBUILD_ERROR_TRACE

text \<open>
  What a target function does when called as a fiber (\<open>umkaCall\<close> runs it to its end):
  it returns without or with an error, asks for a dependency and goes on with the
  answer, registers a dependency path, or calls another host primitive (\<open>sys\<close>, a write
  to its output directory) that changes the file system.
\<close>

datatype script =
    Finish bool
  | Depend_on string "string option \<Rightarrow> script"
  | Register_dep string script
  | Host_io "filesys \<Rightarrow> filesys" script

text \<open>The log lines of the scheduler that the properties below speak of.\<close>

datatype event =
    Executing string
  | Recipe_succeeded string
  | Recipe_failed string
  | Build_failed "string option"
  | Build_completed

text \<open>
  The struct \<open>Scheduler\<close>. A \<open>Recipe*\<close> is the name under which the recipe is kept in
  \<open>recipes\<close>: the ready queue and the waiter lists hold such names. \<open>umka\<close> is the loaded
  build script, as the functions it defines; \<open>registry\<close> maps a target to the name of its
  function; both are NULL until the build file is loaded. \<open>events\<close> is the log. The
  event loop and the tool manager, which the scheduler only creates and frees, are left
  out.
\<close>

record Scheduler =
  storage :: Storage
  recipes :: "string \<rightharpoonup> Recipe"
  completed :: "string \<rightharpoonup> string"
  ready_queue :: "string list"
  waiting :: "string \<rightharpoonup> string list"
  umka :: "(string \<rightharpoonup> script) option"
  registry :: "(string \<rightharpoonup> string) option"
  active_count :: int
  failed :: bool
  target_error :: "string option"
  events :: "event list"

text \<open>
  What the execution of a recipe finds around it: the clock, the name that
  \<open>storage_get_tmp_dir\<close> builds from time and process id, and the state of the script
  bridge (\<open>umka_bridge.c\<close>). \<open>context_umka\<close> says whether the context that
  \<open>umka_bridge_set_context\<close> has set holds the interpreter, \<open>depend_on_callback\<close> whether
  \<open>umka_bridge_set_callbacks\<close> has installed the callback of \<open>rebuild_depend_on\<close>. As the
  sources stand both are false: scheduler.c calls \<open>umka_bridge_set_context\<close> with the
  recipe and the scheduler only, which leaves \<open>ctx->umka\<close> NULL, and nothing calls
  \<open>umka_bridge_set_callbacks\<close>.
\<close>

record environment =
  hrtime_start :: "64 word"
  hrtime_end :: "64 word"
  tmp_stamp :: string
  context_umka :: bool
  depend_on_callback :: bool

definition scheduler_create :: "Storage \<Rightarrow> Scheduler" where
  "scheduler_create st =
     \<lparr>storage = st, recipes = Map.empty, completed = Map.empty, ready_queue = [],
      waiting = Map.empty, umka = None, registry = None, active_count = 0,
      failed = False, target_error = None, events = []\<rparr>"

definition queue_push :: "Scheduler \<Rightarrow> string \<Rightarrow> Scheduler" where
  "queue_push s rn = s\<lparr>ready_queue := ready_queue s @ [rn]\<rparr>"

definition queue_is_empty :: "Scheduler \<Rightarrow> bool" where
  "queue_is_empty s = (ready_queue s = [])"

definition waiter_list_add :: "string list \<Rightarrow> string \<Rightarrow> string list" where
  "waiter_list_add ws rn = rn # ws"

definition scheduler_get_recipe :: "Scheduler \<Rightarrow> string \<Rightarrow> Recipe \<times> Scheduler" where
  "scheduler_get_recipe s tn =
     (case recipes s tn of
        Some recipe \<Rightarrow> (recipe, s)
      | None \<Rightarrow> (recipe_create tn, s\<lparr>recipes := (recipes s)(tn \<mapsto> recipe_create tn)\<rparr>))"

definition scheduler_get_completed :: "Scheduler \<Rightarrow> string \<Rightarrow> string option" where
  "scheduler_get_completed s tn = completed s tn"

definition scheduler_mark_completed :: "Scheduler \<Rightarrow> string \<Rightarrow> string \<Rightarrow> Scheduler" where
  "scheduler_mark_completed s tn output_path = s\<lparr>completed := (completed s)(tn \<mapsto> output_path)\<rparr>"

definition set_recipe_state :: "Scheduler \<Rightarrow> string \<Rightarrow> RecipeState \<Rightarrow> Scheduler" where
  "set_recipe_state s rn st =
     (case recipes s rn of
        None \<Rightarrow> s
      | Some recipe \<Rightarrow> s\<lparr>recipes := (recipes s)(rn \<mapsto> recipe\<lparr>state := st\<rparr>)\<rparr>)"

definition add_waiter :: "Scheduler \<Rightarrow> string \<Rightarrow> string \<Rightarrow> Scheduler" where
  "add_waiter s tn rn =
     s\<lparr>waiting := (waiting s)(tn \<mapsto>
          waiter_list_add (case waiting s tn of None \<Rightarrow> [] | Some ws \<Rightarrow> ws) rn)\<rparr>"

text \<open>
  \<open>scheduler_check_cache\<close>: the request key is the hash of the target name (the code
  says: a placeholder); it is stored in the recipe; the trace of that key is loaded and
  validated; on a valid trace the recipe becomes Complete and its output path is
  published.
\<close>

definition scheduler_check_cache ::
  "hasher \<Rightarrow> filesys \<Rightarrow> Scheduler \<Rightarrow> string \<Rightarrow> bool \<times> Scheduler" where
  "scheduler_check_cache H fs s rn =
     (case recipes s rn of
        None \<Rightarrow> (False, s)
      | Some recipe \<Rightarrow>
          let key = hash_data H (bytes_of (target_name recipe));
              recipe1 = recipe\<lparr>r_request_key := key\<rparr>;
              s1 = s\<lparr>recipes := (recipes s)(rn \<mapsto> recipe1)\<rparr>
          in case trace_load fs (storage s) key of
               None \<Rightarrow> (False, s1)
             | Some trace \<Rightarrow>
                 if fst (trace_validate H fs trace) then
                   let output_path = (case output_dir recipe1 of Some d \<Rightarrow> d | None \<Rightarrow> ''outputs'');
                       s2 = s1\<lparr>recipes := (recipes s1)(rn \<mapsto> recipe1\<lparr>state := RECIPE_COMPLETE\<rparr>)\<rparr>
                   in (True, scheduler_mark_completed s2 (target_name recipe1) output_path)
                 else (False, s1))"

definition scheduler_resume_recipe :: "Scheduler \<Rightarrow> string \<Rightarrow> Scheduler" where
  "scheduler_resume_recipe s rn =
     (case recipes s rn of
        None \<Rightarrow> s
      | Some recipe \<Rightarrow>
          queue_push
            (if state recipe = RECIPE_SUSPENDED then set_recipe_state s rn RECIPE_PENDING else s)
            rn)"

definition waiter_list_notify_all :: "string list \<Rightarrow> Scheduler \<Rightarrow> Scheduler" where
  "waiter_list_notify_all ws s = fold (\<lambda>waiter s'. scheduler_resume_recipe s' waiter) ws s"

text \<open>
  The trace that \<open>scheduler_on_recipe_complete\<close> builds for a recipe that succeeded:
  \<open>trace_create\<close> with the recipe's request key, both times set to the elapsed time, no
  call of \<open>trace_add_dependency\<close> (the code says: TODO), and the hash of the empty string
  as output tree hash (the code says: a placeholder).
\<close>

definition completion_trace :: "hasher \<Rightarrow> Recipe \<Rightarrow> 64 word \<Rightarrow> Trace" where
  "completion_trace H recipe elapsed_time =
     (trace_create (r_request_key recipe))
       \<lparr>output_tree_hash := hash_data H [], cpu_time_ms := elapsed_time,
        wall_time_ms := elapsed_time\<rparr>"

definition scheduler_on_recipe_complete ::
  "hasher \<Rightarrow> environment \<Rightarrow> filesys \<times> Scheduler \<Rightarrow> string \<Rightarrow> bool \<Rightarrow> filesys \<times> Scheduler" where
  "scheduler_on_recipe_complete H env w rn success =
     (case recipes (snd w) rn of
        None \<Rightarrow> w
      | Some recipe \<Rightarrow>
          let fs = fst w;
              s0 = (snd w)\<lparr>active_count := active_count (snd w) - 1\<rparr>;
              elapsed_time = hrtime_end env div 1000000 - start_time recipe
          in if success then
               let s1 = set_recipe_state
                          (s0\<lparr>events := events s0 @ [Recipe_succeeded (target_name recipe)]\<rparr>)
                          rn RECIPE_COMPLETE;
                   fs1 = snd (trace_save fs (storage s1) (completion_trace H recipe elapsed_time));
                   output_path = (case output_dir recipe of Some d \<Rightarrow> d | None \<Rightarrow> ''outputs'');
                   s2 = scheduler_mark_completed s1 (target_name recipe) output_path
               in (case waiting s2 (target_name recipe) of
                     None \<Rightarrow> (fs1, s2)
                   | Some waiters \<Rightarrow>
                       (fs1, (waiter_list_notify_all waiters s2)
                               \<lparr>waiting := (waiting s2)(target_name recipe := None)\<rparr>))
             else
               (fs, (set_recipe_state
                       (s0\<lparr>events := events s0 @ [Recipe_failed (target_name recipe)]\<rparr>)
                       rn RECIPE_FAILED)
                    \<lparr>failed := True, target_error := Some (target_name recipe)\<rparr>))"

definition scheduler_on_depend_request ::
  "Scheduler \<Rightarrow> string \<Rightarrow> string \<Rightarrow> string option \<times> Scheduler" where
  "scheduler_on_depend_request s rn tn =
     (case recipes s rn of
        None \<Rightarrow> (None, s)
      | Some recipe \<Rightarrow>
          let s1 = s\<lparr>recipes := (recipes s)(rn \<mapsto> recipe_add_dependency recipe tn)\<rparr>
          in case scheduler_get_completed s1 tn of
               Some completed_path \<Rightarrow> (Some completed_path, s1)
             | None \<Rightarrow>
                 let (dep_recipe, s2) = scheduler_get_recipe s1 tn
                 in if state dep_recipe = RECIPE_COMPLETE then
                      (scheduler_get_completed s2 tn, s2)
                    else if state dep_recipe = RECIPE_PENDING then
                      (None, queue_push (add_waiter (set_recipe_state s2 rn RECIPE_SUSPENDED) tn rn) tn)
                    else
                      (None, add_waiter (set_recipe_state s2 rn RECIPE_SUSPENDED) tn rn))"

text \<open>
  Running the function of recipe \<open>rn\<close>. \<open>rebuild_depend_on\<close> calls the callback
  \<open>depend_on\<close> of the bridge when it is set (\<open>callback\<close>), which is
  \<open>scheduler_on_depend_request\<close>, and answers with no path and no effect when it is not;
  \<open>rebuild_register_dep\<close> calls \<open>recipe_add_dependency\<close> on the current recipe. The
  result says whether the function ran to its end without an error.
\<close>

primrec run_script ::
  "bool \<Rightarrow> script \<Rightarrow> string \<Rightarrow> filesys \<times> Scheduler \<Rightarrow> bool \<times> filesys \<times> Scheduler" where
  "run_script callback (Finish ok) rn w = (ok, w)"
| "run_script callback (Depend_on tn k) rn w =
     (if callback then
        (case scheduler_on_depend_request (snd w) rn tn of
           (path, s') \<Rightarrow> run_script callback (k path) rn (fst w, s'))
      else run_script callback (k None) rn w)"
| "run_script callback (Register_dep path k) rn w =
     run_script callback k rn
       (fst w,
        case recipes (snd w) rn of
          None \<Rightarrow> snd w
        | Some recipe \<Rightarrow>
            (snd w)\<lparr>recipes := (recipes (snd w))(rn \<mapsto> recipe_add_dependency recipe path)\<rparr>)"
| "run_script callback (Host_io effect k) rn w = run_script callback k rn (effect (fst w), snd w)"

text \<open>
  \<open>umka_resume_fiber\<close>: without an interpreter in the context it reports
  \<open>UMKA_FIBER_ERROR\<close> and nothing runs; with one, the function is called. The result is
  true for \<open>UMKA_FIBER_COMPLETE\<close>.
\<close>

definition umka_resume_fiber ::
  "environment \<Rightarrow> script \<Rightarrow> string \<Rightarrow> filesys \<times> Scheduler \<Rightarrow> bool \<times> filesys \<times> Scheduler" where
  "umka_resume_fiber env fiber rn w =
     (if context_umka env then run_script (depend_on_callback env) fiber rn w else (False, w))"

text \<open>
  \<open>ensure_directory\<close> of scheduler.c: true without a change when the path is a
  directory, false when it is something else, and a \<open>mkdir\<close> (taken to succeed) when
  nothing is there. \<open>storage_get_tmp_dir\<close> names a fresh directory in \<open>tmp/\<close> and creates
  it the same way.
\<close>

definition ensure_directory :: "filesys \<Rightarrow> string \<Rightarrow> bool \<times> filesys" where
  "ensure_directory fs path =
     (case stat fs path of
        Some st \<Rightarrow> (S_ISDIR st, fs)
      | None \<Rightarrow> (True, fs\<lparr>nodes := (nodes fs)(path \<mapsto> Dir [])\<rparr>))"

definition storage_get_tmp_dir ::
  "filesys \<Rightarrow> Storage \<Rightarrow> string \<Rightarrow> string \<Rightarrow> string option \<times> filesys" where
  "storage_get_tmp_dir fs st tn stamp =
     (let tmp_path = tmp_dir st @ ''/'' @ tn @ ''_'' @ stamp
      in case ensure_directory fs tmp_path of
           (True, fs') \<Rightarrow> (Some tmp_path, fs')
         | (False, fs') \<Rightarrow> (None, fs'))"

text \<open>
  \<open>scheduler_execute_recipe\<close>: the recipe becomes Running; its output directory
  (\<open>outputs/<target>\<close>, cut to the 255 characters of the buffer) and its temporary
  directory are set when they are not (\<open>prepare_directories\<close>); then
  \<open>umka_resume_fiber\<close> is called on the target's function, and
  \<open>scheduler_on_recipe_complete\<close> is called with success exactly when it reports
  \<open>UMKA_FIBER_COMPLETE\<close>. Without a script, a registry, a registered target or its
  function, the recipe fails.
\<close>

definition prepare_directories ::
  "environment \<Rightarrow> Storage \<Rightarrow> filesys \<Rightarrow> Recipe \<Rightarrow> Recipe \<times> filesys" where
  "prepare_directories env st fs recipe =
     (let tn = target_name recipe;
          out = (case output_dir recipe of
                   None \<Rightarrow> (recipe_set_output_dir recipe (take 255 (''outputs/'' @ tn)),
                            snd (ensure_directory fs (take 255 (''outputs/'' @ tn))))
                 | Some d \<Rightarrow> (recipe, fs))
      in case temp_dir (fst out) of
           None \<Rightarrow>
             (case storage_get_tmp_dir (snd out) st tn (tmp_stamp env) of
                (dir, fs') \<Rightarrow> ((fst out)\<lparr>temp_dir := dir\<rparr>, fs'))
         | Some d \<Rightarrow> out)"

definition scheduler_execute_recipe ::
  "hasher \<Rightarrow> environment \<Rightarrow> filesys \<times> Scheduler \<Rightarrow> string \<Rightarrow> filesys \<times> Scheduler" where
  "scheduler_execute_recipe H env w rn =
     (case recipes (snd w) rn of
        None \<Rightarrow> w
      | Some recipe \<Rightarrow>
          let tn = target_name recipe;
              prepared =
                prepare_directories env (storage (snd w)) (fst w)
                  (recipe\<lparr>state := RECIPE_RUNNING, start_time := hrtime_start env div 1000000\<rparr>);
              s1 = (snd w)\<lparr>events := events (snd w) @ [Executing tn],
                           active_count := active_count (snd w) + 1,
                           recipes := (recipes (snd w))(rn \<mapsto> fst prepared)\<rparr>;
              w1 = (snd prepared, s1)
          in case (umka s1, registry s1) of
               (Some functions, Some targets) \<Rightarrow>
                 (case targets tn of
                    None \<Rightarrow> scheduler_on_recipe_complete H env w1 rn False
                  | Some function_name \<Rightarrow>
                      (case functions function_name of
                         None \<Rightarrow> scheduler_on_recipe_complete H env w1 rn False
                       | Some fiber \<Rightarrow>
                           (case umka_resume_fiber env fiber rn w1 of
                              (success, w2) \<Rightarrow> scheduler_on_recipe_complete H env w2 rn success)))
             | _ \<Rightarrow> scheduler_on_recipe_complete H env w1 rn False)"

text \<open>
  The loop of \<open>scheduler_run\<close>, with a bound on the number of iterations: \<open>None\<close> when
  the bound is reached before the loop ends. \<open>envs\<close> gives the clock of each iteration.
\<close>

fun scheduler_run_loop ::
  "hasher \<Rightarrow> (nat \<Rightarrow> environment) \<Rightarrow> nat \<Rightarrow> filesys \<times> Scheduler \<Rightarrow> (filesys \<times> Scheduler) option" where
  "scheduler_run_loop H envs n w =
     (if queue_is_empty (snd w) \<or> failed (snd w) then Some w
      else case n of
             0 \<Rightarrow> None
           | Suc m \<Rightarrow>
               let rn = hd (ready_queue (snd w));
                   w1 = (fst w, (snd w)\<lparr>ready_queue := tl (ready_queue (snd w))\<rparr>)
               in case recipes (snd w1) rn of
                    None \<Rightarrow> scheduler_run_loop H envs m w1
                  | Some recipe \<Rightarrow>
                      if state recipe = RECIPE_COMPLETE then scheduler_run_loop H envs m w1
                      else scheduler_run_loop H envs m (scheduler_execute_recipe H (envs m) w1 rn))"

definition scheduler_run ::
  "hasher \<Rightarrow> (nat \<Rightarrow> environment) \<Rightarrow> nat \<Rightarrow> filesys \<times> Scheduler
     \<Rightarrow> (RebuildError \<times> filesys \<times> Scheduler) option" where
  "scheduler_run H envs n w =
     (case scheduler_run_loop H envs n w of
        None \<Rightarrow> None
      | Some (fs, s) \<Rightarrow>
          if failed s then
            Some (REBUILD_ERROR_EXEC, fs, s\<lparr>events := events s @ [Build_failed (target_error s)]\<rparr>)
          else Some (REBUILD_OK, fs, s\<lparr>events := events s @ [Build_completed]\<rparr>))"

subsection \<open>Example values\<close>

text \<open>A stand-in digest for the examples: the first 32 bytes of the input, zero-padded.\<close>

definition pad_hash :: hasher where
  "pad_hash bs = take 32 (bs @ replicate 32 0)"

definition example_storage :: Storage where
  "example_storage =
     \<lparr>base_dir = ''/s'', traces_dir = ''/s/traces'', objects_dir = ''/s/objects'',
      tmp_dir = ''/s/tmp''\<rparr>"

definition empty_fs :: filesys where
  "empty_fs = \<lparr>nodes = Map.empty, avail = 100000, blksize = 4096\<rparr>"

text \<open>A device with room for 50 more bytes.\<close>

definition full_fs :: filesys where
  "full_fs = \<lparr>nodes = Map.empty, avail = 50, blksize = 4096\<rparr>"



definition small_trace :: Trace where
  "small_trace =
     (trace_add_dependency (trace_create zero_hash) ''a.c'' (pad_hash [1]))
       \<lparr>output_tree_hash := pad_hash [2], cpu_time_ms := 5, wall_time_ms := 7\<rparr>"

definition two_files_fs :: filesys where
  "two_files_fs = \<lparr>nodes = [''a.c'' \<mapsto> File [1], ''b.c'' \<mapsto> File [2]], avail = 100000, blksize = 4096\<rparr>"

definition stale_trace :: Trace where
  "stale_trace =
     trace_add_dependency
       (trace_add_dependency (trace_create zero_hash) ''a.c'' (pad_hash [9]))
       ''b.c'' (pad_hash [2])"

definition bad_version_fs :: filesys where
  "bad_version_fs =
     \<lparr>nodes = [storage_get_trace_path example_storage zero_hash
                 \<mapsto> File (TRACE_MAGIC @ le_bytes 4 (2 :: 32 word))],
      avail = 100000, blksize = 4096\<rparr>"

definition app_sched :: Scheduler where
  "app_sched = (scheduler_create example_storage)\<lparr>recipes := [''app'' \<mapsto> recipe_create ''app'']\<rparr>"

definition cached_fs :: filesys where
  "cached_fs = snd (trace_save empty_fs example_storage (trace_create (pad_hash (bytes_of ''app''))))"

definition env0 :: environment where
  "env0 =
     \<lparr>hrtime_start = 1000000, hrtime_end = 3000000, tmp_stamp = ''1700000000_42'',
      context_umka = False, depend_on_callback = False\<rparr>"

definition app_with_dep :: Recipe where
  "app_with_dep = recipe_add_dependency (recipe_create ''app'') ''lib''"

definition probe_sched :: Scheduler where
  "probe_sched = (scheduler_create example_storage)\<lparr>recipes := [''app'' \<mapsto> app_with_dep]\<rparr>"

definition built_recipe :: Recipe where
  "built_recipe =
     (recipe_add_dependency (recipe_create ''app'') ''lib.c'')
       \<lparr>state := RECIPE_RUNNING, output_dir := Some ''outputs/app''\<rparr>"

definition built_sched :: Scheduler where
  "built_sched =
     (scheduler_create example_storage)\<lparr>recipes := [''app'' \<mapsto> built_recipe], active_count := 1\<rparr>"

definition built_fs :: filesys where
  "built_fs =
     \<lparr>nodes = [''lib.c'' \<mapsto> File [1], ''outputs/app'' \<mapsto> Dir [(''app.o'', File [2])]],
      avail = 100000, blksize = 4096\<rparr>"

text \<open>
  A scheduler where \<open>lib\<close> is built and published and \<open>app\<close> is running.
\<close>

definition answered_sched :: Scheduler where
  "answered_sched =
     (scheduler_create example_storage)
       \<lparr>recipes := [''app'' \<mapsto> (recipe_create ''app'')\<lparr>state := RECIPE_RUNNING\<rparr>,
                    ''lib'' \<mapsto> (recipe_create ''lib'')\<lparr>state := RECIPE_COMPLETE\<rparr>],
        completed := [''lib'' \<mapsto> ''outputs/lib''],
        active_count := 1\<rparr>"

text \<open>
  A scheduler where \<open>app\<close>, which has declared the dependency \<open>x\<close>, and \<open>lib\<close> are
  running, and \<open>other\<close> is suspended and waits for \<open>lib\<close>.
\<close>

definition busy_sched :: Scheduler where
  "busy_sched =
     (scheduler_create example_storage)
       \<lparr>recipes := [''app'' \<mapsto> (recipe_add_dependency (recipe_create ''app'') ''x'')\<lparr>state := RECIPE_RUNNING\<rparr>,
                    ''other'' \<mapsto> (recipe_create ''other'')\<lparr>state := RECIPE_SUSPENDED\<rparr>,
                    ''lib'' \<mapsto> (recipe_create ''lib'')\<lparr>state := RECIPE_RUNNING\<rparr>],
        waiting := [''lib'' \<mapsto> [''other'']]\<rparr>"

text \<open>
  What holds of the recipes in every state the scheduler reaches from
  \<open>scheduler_create\<close>: a recipe is kept under its target name, a Complete recipe has its
  output path published, and the pending dependencies are declared ones.
\<close>

definition sched_inv :: "Scheduler \<Rightarrow> bool" where
  "sched_inv s =
     (\<forall>n r. recipes s n = Some r \<longrightarrow>
        target_name r = n \<and>
        (state r = RECIPE_COMPLETE \<longrightarrow> completed s n \<noteq> None) \<and>
        pending_deps r |\<subseteq>| declared_deps r)"

text \<open>
  For the properties of a run: the recipe failures in the log; what a dependency request
  and a fiber leave as they are (the log, the failure flag and the failed target's name,
  the script, the registry and the store; a recipe and its name); and what the execution
  of one recipe adds to the log.
\<close>

fun is_recipe_failed :: "event \<Rightarrow> bool" where
  "is_recipe_failed (Recipe_failed _) = True"
| "is_recipe_failed _ = False"

definition same_outcome :: "Scheduler \<Rightarrow> Scheduler \<Rightarrow> bool" where
  "same_outcome s s' =
     (events s' = events s \<and> failed s' = failed s \<and> target_error s' = target_error s \<and>
      umka s' = umka s \<and> registry s' = registry s \<and> storage s' = storage s)"

definition keeps_recipe :: "string \<Rightarrow> Scheduler \<Rightarrow> Scheduler \<Rightarrow> bool" where
  "keeps_recipe rn s s' =
     (case recipes s rn of
        None \<Rightarrow> True
      | Some r \<Rightarrow> (case recipes s' rn of None \<Rightarrow> False | Some r' \<Rightarrow> target_name r' = target_name r))"

definition step_outcome :: "Scheduler \<Rightarrow> string \<Rightarrow> Scheduler \<Rightarrow> bool" where
  "step_outcome s tn s' =
     ((events s' = events s @ [Executing tn, Recipe_succeeded tn] \<and>
       failed s' = failed s \<and> target_error s' = target_error s) \<or>
      (events s' = events s @ [Executing tn, Recipe_failed tn] \<and>
       failed s' \<and> target_error s' = Some tn))"

text \<open>A scheduler with two queued targets; the function of the first one fails.\<close>

definition fail_sched :: Scheduler where
  "fail_sched =
     (scheduler_create example_storage)
       \<lparr>recipes := [''q'' \<mapsto> recipe_create ''q'', ''p'' \<mapsto> recipe_create ''p''],
        ready_queue := [''q'', ''p''],
        umka := Some [''build_q'' \<mapsto> Finish False, ''build_p'' \<mapsto> Finish True],
        registry := Some [''q'' \<mapsto> ''build_q'', ''p'' \<mapsto> ''build_p'']\<rparr>"

section \<open>Validation stops at the first dependency that does not match\<close>

lemma validate_deps_Cons:
  "validate_deps H fs (d # rest) =
     (if dep_matches H fs d
      then (fst (validate_deps H fs rest), hash_calls_on fs (fst d) @ snd (validate_deps H fs rest))
      else (False, hash_calls_on fs (fst d)))"
  by (cases d)
     (auto simp: dep_matches_def current_hash_def hash_calls_on_def hash_equal_def
           split: option.splits)

lemma validate_deps_verdict:
  "fst (validate_deps H fs ds) = list_all (dep_matches H fs) ds"
  by (induction ds) (simp_all add: validate_deps_Cons del: validate_deps.simps(2))

lemma validate_deps_calls:
  "snd (validate_deps H fs ds) =
     concat (map (hash_calls_on fs \<circ> fst)
               (take (Suc (length (takeWhile (dep_matches H fs) ds))) ds))"
  by (induction ds) (simp_all add: validate_deps_Cons del: validate_deps.simps(2))

section \<open>Bytes and little-endian integers\<close>

lemma le_word_le_bytes_32: "le_word (le_bytes 4 (w :: 32 word)) = w"
  unfolding le_bytes_def le_word_def
  apply (simp add: upt_rec)
  apply (rule bit_word_eqI)
  subgoal for n
    apply (cases "n < 8"; cases "n < 16"; cases "n < 24")
           apply (auto simp add: bit_simps)
    done
  done

lemma le_word_le_bytes_64: "le_word (le_bytes 8 (w :: 64 word)) = w"
  unfolding le_bytes_def le_word_def
  apply (simp add: upt_rec)
  apply (rule bit_word_eqI)
  subgoal for n
    apply (cases "n < 8"; cases "n < 16"; cases "n < 24"; cases "n < 32"; cases "n < 40";
           cases "n < 48"; cases "n < 56")
    apply (auto simp add: bit_simps)
    done
  done

lemma length_le_bytes: "length (le_bytes n w) = n"
  by (simp add: le_bytes_def)

lemma char_of_byte_of_char: "char_of_byte (byte_of_char c) = c"
  by (simp add: char_of_byte_def byte_of_char_def unat_of_nat)

lemma char_of_0: "char_of (0::nat) = CHR 0x00"
  by (simp add: char_of_def)

lemma byte_of_char_eq_0: "byte_of_char c = 0 \<longleftrightarrow> c = CHR 0x00"
proof
  assume "byte_of_char c = 0"
  then have "char_of_byte (byte_of_char c) = char_of_byte 0" by simp
  then show "c = CHR 0x00"
    by (simp add: char_of_byte_of_char) (simp add: char_of_byte_def char_of_0)
next
  assume "c = CHR 0x00"
  then show "byte_of_char c = 0" by (simp add: byte_of_char_def)
qed

lemma c_string_bytes_of: "valid_c_string s \<Longrightarrow> c_string (bytes_of s) = s"
  unfolding c_string_def bytes_of_def valid_c_string_def
  by (induction s) (auto simp: byte_of_char_eq_0 char_of_byte_of_char)

lemma of_nat_path_len: "n \<le> 4096 \<Longrightarrow> unat (of_nat n :: 32 word) = n"
  by (simp add: unat_of_nat)

lemma of_nat_path_len_le: "n \<le> 4096 \<Longrightarrow> \<not> (of_nat n :: 32 word) > 4096"
  by (simp add: word_less_nat_alt unat_of_nat)

section \<open>Streams\<close>

lemma read_all_append: "n = length a \<Longrightarrow> read_all (a @ rest) n = Some (a, rest)"
  by (simp add: read_all_def)

lemma write_all_stream:
  "wbytes (snd (write_all f data)) @ wbuffer (snd (write_all f data)) = wbytes f @ wbuffer f @ data \<and>
   wbufsize (snd (write_all f data)) = wbufsize f"
  by (simp add: write_all_def fwrite_def fflush_w_def Let_def del: take_append drop_append)

lemma write_all_success:
  assumes "write_all f data = (True, f')" and "length (wbuffer f) \<le> wbufsize f"
  shows "length (wbuffer f') \<le> wbufsize f' \<and>
         wspace f' + length (wbytes f') = wspace f + length (wbytes f) \<and>
         length (wbytes f') - length (wbytes f) \<le> wspace f"
proof (cases "length (wbuffer f) + length data \<le> wbufsize f")
  case True
  with assms show ?thesis by (auto simp: write_all_def fwrite_def)
next
  case False
  with assms(2) have d: "0 < length data" by (cases data) auto
  from assms(1) False have "length data - (length (wbuffer f) + length data - wspace f) = length data"
    by (simp add: write_all_def fwrite_def fflush_w_def Let_def del: take_append drop_append)
  with d have "length (wbuffer f) + length data \<le> wspace f" by arith
  with assms(1) False show ?thesis
    by (auto simp: write_all_def fwrite_def fflush_w_def Let_def)
qed

lemma write_each_success:
  "write_each f cs = (True, f') \<Longrightarrow> length (wbuffer f) \<le> wbufsize f \<Longrightarrow>
     wbytes f' @ wbuffer f' = wbytes f @ wbuffer f @ concat cs \<and>
     length (wbuffer f') \<le> wbufsize f' \<and>
     wspace f' + length (wbytes f') = wspace f + length (wbytes f) \<and>
     length (wbytes f') - length (wbytes f) \<le> wspace f"
proof (induction cs arbitrary: f)
  case Nil
  then show ?case by simp
next
  case (Cons data cs)
  obtain ok f1 where w: "write_all f data = (ok, f1)" by (cases "write_all f data")
  with Cons.prems(1) have ok: "ok" and rest: "write_each f1 cs = (True, f')"
    by (auto split: bool.splits)
  from write_all_success [OF w [unfolded eqTrueI [OF ok]] Cons.prems(2)]
  have 1: "length (wbuffer f1) \<le> wbufsize f1"
    "wspace f1 + length (wbytes f1) = wspace f + length (wbytes f)"
    "length (wbytes f1) - length (wbytes f) \<le> wspace f" by simp_all
  from write_all_stream [of f data] w
  have 2: "wbytes f1 @ wbuffer f1 = wbytes f @ wbuffer f @ data" by simp
  from Cons.IH [OF rest 1(1)]
  have 3: "wbytes f' @ wbuffer f' = wbytes f1 @ wbuffer f1 @ concat cs"
    "length (wbuffer f') \<le> wbufsize f'"
    "wspace f' + length (wbytes f') = wspace f1 + length (wbytes f1)"
    "length (wbytes f') - length (wbytes f1) \<le> wspace f1" by simp_all
  have "wbytes f' @ wbuffer f' = wbytes f @ wbuffer f @ concat (data # cs)"
    using 2 3(1) by (metis append.assoc concat.simps(2))
  moreover have "length (wbytes f') - length (wbytes f) \<le> wspace f"
    using 1(2,3) 3(3,4) by linarith
  ultimately show ?case using 1 3 by simp
qed

lemma write_each_buffered:
  "length (wbuffer f) + length (concat cs) \<le> wbufsize f \<Longrightarrow>
     write_each f cs = (True, f\<lparr>wbuffer := wbuffer f @ concat cs\<rparr>)"
  by (induction cs arbitrary: f) (auto simp: write_all_def fwrite_def)

lemma write_each_fits:
  "length (wbuffer f) + length (concat cs) \<le> wspace f \<Longrightarrow> fst (write_each f cs)"
proof (induction cs arbitrary: f)
  case Nil
  show ?case by simp
next
  case (Cons data cs)
  show ?case
  proof (cases "length (wbuffer f) + length data \<le> wbufsize f")
    case True
    then have w: "write_all f data = (True, f\<lparr>wbuffer := wbuffer f @ data\<rparr>)"
      by (simp add: write_all_def fwrite_def)
    from Cons.IH [of "f\<lparr>wbuffer := wbuffer f @ data\<rparr>"] Cons.prems show ?thesis
      by (simp add: w)
  next
    case False
    from Cons.prems have fit: "length (wbuffer f) + length data \<le> wspace f" by simp
    with False have w: "write_all f data =
        (True, f\<lparr>wbytes := wbytes f @ wbuffer f @ data, wbuffer := [],
                 wspace := wspace f - (length (wbuffer f) + length data)\<rparr>)"
      by (simp add: write_all_def fwrite_def fflush_w_def Let_def)
    from Cons.IH [of "f\<lparr>wbytes := wbytes f @ wbuffer f @ data, wbuffer := [],
                 wspace := wspace f - (length (wbuffer f) + length data)\<rparr>"] Cons.prems
    show ?thesis by (simp add: w)
  qed
qed

text \<open>
  C3. \<open>trace_validate\<close> goes through the dependencies in recorded order. It returns true
  if and only if every dependency matches. The paths it hashes are those of the
  dependencies up to and including the first one that does not match (a missing path, or
  one that is neither file nor directory, is not hashed), and no later one. If the first
  dependency mismatches, the verdict is false and exactly one path has been hashed.
\<close>

theorem trace_validate_early_cutoff:
  "fst (trace_validate H fs t) = list_all (dep_matches H fs) (deps t) \<and>
   snd (trace_validate H fs t) =
     concat (map (hash_calls_on fs \<circ> fst)
               (take (Suc (length (takeWhile (dep_matches H fs) (deps t)))) (deps t))) \<and>
   (\<forall>d rest. deps t = d # rest \<and> dep_mismatches H fs d \<longrightarrow>
      \<not> fst (trace_validate H fs t) \<and> length (snd (trace_validate H fs t)) = 1)"
proof -
  have "\<not> fst (trace_validate H fs t) \<and> length (snd (trace_validate H fs t)) = 1"
    if "deps t = d # rest" and "dep_mismatches H fs d" for d rest
    using that
    by (auto simp: trace_validate_def validate_deps_Cons dep_mismatches_def hash_calls_on_def
             simp del: validate_deps.simps(2) split: option.splits if_splits)
  then show ?thesis
    by (simp add: trace_validate_def validate_deps_verdict validate_deps_calls)
qed

theorem trace_validate_early_cutoff_witness:
  "deps stale_trace = (''a.c'', pad_hash [9]) # [(''b.c'', pad_hash [2])] \<and>
   dep_mismatches pad_hash two_files_fs (''a.c'', pad_hash [9]) \<and>
   \<not> fst (trace_validate pad_hash two_files_fs stale_trace) \<and>
   length (snd (trace_validate pad_hash two_files_fs stale_trace)) = 1"
proof -
  have d: "deps stale_trace = (''a.c'', pad_hash [9]) # [(''b.c'', pad_hash [2])]"
    by (simp add: stale_trace_def trace_add_dependency_def trace_create_def)
  have m: "dep_mismatches pad_hash two_files_fs (''a.c'', pad_hash [9])"
    by (simp add: dep_mismatches_def dep_matches_def current_hash_def hash_calls_on_def
        stat_def two_files_fs_def hash_file_def pad_hash_def)
  from d m trace_validate_early_cutoff [of pad_hash two_files_fs stale_trace]
  show ?thesis by blast
qed

section \<open>Saving and loading a trace\<close>

lemma read_deps_dep_writes:
  assumes "list_all dep_well_formed ds" and "list_all (\<lambda>d. length (fst d) \<le> 4096) ds"
  shows "read_deps (length ds) (concat (concat (map dep_writes ds)) @ rest) t =
           Some (t\<lparr>deps := deps t @ ds\<rparr>, rest)"
  using assms
proof (induction ds arbitrary: t)
  case Nil
  then show ?case by simp
next
  case (Cons d ds)
  obtain p h where d: "d = (p, h)" by (cases d)
  from Cons.prems d have p: "valid_c_string p" "length h = 32" "length p \<le> 4096"
    by (simp_all add: dep_well_formed_def)
  have tl: "list_all dep_well_formed ds" "list_all (\<lambda>d. length (fst d) \<le> 4096) ds"
    using Cons.prems by simp_all
  have w: "concat (dep_writes (p, h)) = le_bytes 4 (of_nat (length p) :: 32 word) @ bytes_of p @ h"
    using p by (simp add: dep_writes_def Let_def of_nat_path_len bytes_of_def)
  have lp: "length (bytes_of p) = length p" by (simp add: bytes_of_def)
  show ?case
    using p Cons.IH [OF tl, of "trace_add_dependency t p h"]
    by (simp add: w lp read_all_append length_le_bytes le_word_le_bytes_32 of_nat_path_len
                  of_nat_path_len_le c_string_bytes_of trace_add_dependency_def d)
qed

lemma read_all_exact: "n = length a \<Longrightarrow> read_all a n = Some (a, [])"
  by (simp add: read_all_def)

lemma length_TRACE_MAGIC: "length TRACE_MAGIC = 4"
  by (simp add: TRACE_MAGIC_def bytes_of_def)

lemma length_zero_hash: "length zero_hash = 32"
  by (simp add: zero_hash_def)

lemma length_pad_hash: "length (pad_hash bs) = 32"
  by (simp add: pad_hash_def)

lemma trace_save_file:
  assumes "trace_save fs st t = (True, fs')"
  shows "nodes fs' (storage_get_trace_path st (request_key t)) =
           Some (File (take (avail fs) (concat (trace_writes t))))"
proof -
  let ?p = "storage_get_trace_path st (request_key t)"
  from assms obtain f where f: "fopen_wb fs ?p = Some f"
    by (cases "fopen_wb fs ?p") (auto simp: trace_save_def)
  then have e: "wbytes f = []" "wbuffer f = []" "wspace f = avail fs"
    by (auto simp: fopen_wb_def split: option.splits node.splits)
  obtain ok f' where w: "write_each f (trace_writes t) = (ok, f')"
    by (cases "write_each f (trace_writes t)")
  with assms f have ok: "ok" and fs': "fs' = snd (fclose_w fs ?p f')"
    by (auto simp: trace_save_def)
  from write_each_success [OF w [unfolded eqTrueI [OF ok]]] e
  have all: "wbytes f' @ wbuffer f' = concat (trace_writes t)"
    and sp: "wspace f' + length (wbytes f') = avail fs" by simp_all
  from sp have "avail fs - length (wbytes f') = wspace f'" by arith
  then have "take (avail fs) (wbytes f' @ wbuffer f') = wbytes f' @ take (wspace f') (wbuffer f')"
    using sp by simp
  with all fs' show ?thesis by (simp add: fclose_w_def fflush_w_def Let_def)
qed

lemma trace_save_success:
  assumes "trace_save fs st t = (True, fs')" and "length (concat (trace_writes t)) \<le> avail fs"
  shows "nodes fs' (storage_get_trace_path st (request_key t)) = Some (File (concat (trace_writes t)))"
  using trace_save_file [OF assms(1)] assms(2) by simp

lemma trace_save_fits:
  assumes "nodes fs (storage_get_trace_path st (request_key t)) = None"
    and "length (concat (trace_writes t)) \<le> avail fs"
  shows "fst (trace_save fs st t)"
  using assms write_each_fits [of "\<lparr>wbytes = [], wbuffer = [], wspace = avail fs, wbufsize = blksize fs\<rparr>"
      "trace_writes t"]
  by (auto simp: trace_save_def fopen_wb_def split: prod.splits)

lemma trace_save_buffered:
  assumes "nodes fs (storage_get_trace_path st (request_key t)) = None"
    and "length (concat (trace_writes t)) \<le> blksize fs"
  shows "fst (trace_save fs st t)"
  using assms by (simp add: trace_save_def fopen_wb_def write_each_buffered)

lemma trace_load_file:
  "nodes fs (storage_get_trace_path st key) = Some (File bs) \<Longrightarrow>
     trace_load fs st key = read_trace key bs"
  by (simp add: trace_load_def storage_trace_exists_def stat_def fopen_rb_def)

lemma read_trace_trace_writes:
  assumes "trace_well_formed t" and "paths_within_limit t"
  shows "read_trace (request_key t) (concat (trace_writes t)) = Some t"
proof -
  from assms have k: "length (request_key t) = 32" and o: "length (output_tree_hash t) = 32"
    and c: "unat (of_nat (dep_count t) :: 64 word) = length (deps t)"
    and ds: "list_all dep_well_formed (deps t)" "list_all (\<lambda>d. length (fst d) \<le> 4096) (deps t)"
    by (simp_all add: trace_well_formed_def paths_within_limit_def dep_count_def unat_of_nat)
  have rd: "read_deps (length (deps t)) (concat (concat (map dep_writes (deps t))) @ rest) (trace_create (request_key t)) =
          Some ((trace_create (request_key t))\<lparr>deps := deps t\<rparr>, rest)" for rest
    using read_deps_dep_writes [OF ds, of rest "trace_create (request_key t)"]
    by (simp add: trace_create_def)
  show ?thesis
    by (simp add: read_trace_def trace_writes_def read_all_append read_all_exact length_TRACE_MAGIC
        length_le_bytes le_word_le_bytes_32 le_word_le_bytes_64 k o c hash_equal_def
        rd [unfolded trace_create_def, simplified] trace_create_def)
qed







lemma small_trace_bytes:
  "concat (trace_writes small_trace) =
     TRACE_MAGIC @ le_bytes 4 TRACE_VERSION @ zero_hash @ le_bytes 8 (1 :: 64 word) @
     le_bytes 4 (3 :: 32 word) @ bytes_of ''a.c'' @ pad_hash [1] @ pad_hash [2] @
     le_bytes 8 (5 :: 64 word) @ le_bytes 8 (7 :: 64 word)"
  by (simp add: trace_writes_def small_trace_def trace_add_dependency_def trace_create_def
      dep_writes_def dep_count_def bytes_of_def)

text \<open>
  What the hypothesis on the room excludes. The 135 bytes of \<open>small_trace\<close> fit the
  buffer of the stream, so every \<open>fwrite\<close> reports success and \<open>trace_save\<close> returns
  true also on a device with room for 50 bytes; \<open>fclose\<close> writes the 50 bytes that fit,
  its result is dropped, and \<open>trace_load\<close> refuses the file, which ends inside the
  length of the first path.
\<close>

lemma trace_save_full_device:
  "fst (trace_save full_fs example_storage small_trace) \<and>
   trace_load (snd (trace_save full_fs example_storage small_trace)) example_storage
     (request_key small_trace) = None"
proof -
  have len: "length (concat (trace_writes small_trace)) = 135"
    by (simp add: small_trace_bytes length_TRACE_MAGIC length_le_bytes length_zero_hash
        length_pad_hash bytes_of_def)
  have ok: "fst (trace_save full_fs example_storage small_trace)"
    by (rule trace_save_buffered) (simp_all add: full_fs_def len)
  then have sv: "trace_save full_fs example_storage small_trace =
      (True, snd (trace_save full_fs example_storage small_trace))"
    by (cases "trace_save full_fs example_storage small_trace") simp
  have k: "request_key small_trace = zero_hash"
    by (simp add: small_trace_def trace_add_dependency_def trace_create_def)
  have cut: "take 50 (concat (trace_writes small_trace)) =
      TRACE_MAGIC @ le_bytes 4 TRACE_VERSION @ zero_hash @ le_bytes 8 (1 :: 64 word) @
      take 2 (le_bytes 4 (3 :: 32 word))"
    by (simp add: small_trace_bytes length_TRACE_MAGIC length_le_bytes length_zero_hash)
  have rd: "read_trace zero_hash (take 50 (concat (trace_writes small_trace))) = None"
    by (simp add: cut read_trace_def read_all_append length_TRACE_MAGIC length_le_bytes
        le_word_le_bytes_32 le_word_le_bytes_64 length_zero_hash hash_equal_def)
       (simp add: read_all_def length_le_bytes)
  from trace_load_file [OF trace_save_file [OF sv]] rd ok show ?thesis
    by (simp add: k full_fs_def)
qed

lemma read_deps_path_lens:
  "read_deps n f t = Some r \<Longrightarrow> \<forall>l \<in> set (entry_path_lens n f). l \<le> 4096"
proof (induction n arbitrary: f t)
  case 0
  then show ?case by simp
next
  case (Suc n)
  from Suc.prems have len: "4 \<le> length f"
    by (auto simp: read_all_def split: if_splits)
  let ?l = "le_word (take 4 f) :: 32 word"
  from Suc.prems len have l: "?l \<le> 4096"
    by (auto simp: read_all_def Let_def split: if_splits)
  from Suc.prems len l obtain t' where
    "read_deps n (drop (4 + unat ?l + 32) f) t' = Some r"
    by (auto simp: read_all_def Let_def add.commute add.left_commute
        split: if_splits Option.bind_splits)
  from Suc.IH [OF this] len l show ?case by simp
qed

lemma read_trace_accepts:
  assumes "read_trace key bs = Some t"
  shows "file_magic bs = TRACE_MAGIC \<and> file_version bs = TRACE_VERSION \<and>
         file_request_key bs = key \<and> (\<forall>l \<in> set (file_path_lens bs). l \<le> 4096)"
proof -
  from assms have m: "take 4 bs = TRACE_MAGIC"
    by (auto simp: read_trace_def read_all_def split: if_splits Option.bind_splits)
  from assms have v: "le_word (take 4 (drop 4 bs)) = TRACE_VERSION"
    by (auto simp: read_trace_def read_all_def split: if_splits Option.bind_splits)
  from assms have k: "take 32 (drop 8 bs) = key"
    by (auto simp: read_trace_def read_all_def hash_equal_def split: if_splits Option.bind_splits)
  from assms obtain r where
    "read_deps (unat (le_word (take 8 (drop 40 bs)) :: 64 word)) (drop 48 bs) (trace_create key) = Some r"
    by (auto simp: read_trace_def read_all_def Let_def split: if_splits Option.bind_splits)
  from read_deps_path_lens [OF this] m v k show ?thesis
    by (simp add: file_magic_def file_version_def file_request_key_def file_path_lens_def
        file_dep_count_def)
qed

text \<open>
  C5. When the trace file of the lookup key holds a magic other than \<open>RBTR\<close>, a version
  other than 1, a request key other than the lookup key, or a dependency entry whose
  path length exceeds 4096, \<open>trace_load\<close> returns no trace. So a trace is returned only
  when none of these holds.
\<close>

theorem trace_load_rejects:
  assumes "nodes fs (storage_get_trace_path store key) = Some (File bs)"
  shows "file_magic bs \<noteq> TRACE_MAGIC \<or> file_version bs \<noteq> TRACE_VERSION \<or>
         file_request_key bs \<noteq> key \<or> (\<exists>l \<in> set (file_path_lens bs). l > 4096)
         \<longrightarrow> trace_load fs store key = None"
proof (cases "read_trace key bs")
  case None
  with assms show ?thesis by (simp add: trace_load_file)
next
  case (Some t)
  from read_trace_accepts [OF this] show ?thesis by (auto simp: not_less)
qed

theorem trace_load_rejects_witness:
  "nodes bad_version_fs (storage_get_trace_path example_storage zero_hash) =
     Some (File (TRACE_MAGIC @ le_bytes 4 (2 :: 32 word))) \<and>
   file_version (TRACE_MAGIC @ le_bytes 4 (2 :: 32 word)) \<noteq> TRACE_VERSION \<and>
   trace_load bad_version_fs example_storage zero_hash = None"
proof -
  have f: "nodes bad_version_fs (storage_get_trace_path example_storage zero_hash) =
     Some (File (TRACE_MAGIC @ le_bytes 4 (2 :: 32 word)))"
    by (simp add: bad_version_fs_def)
  have v: "file_version (TRACE_MAGIC @ le_bytes 4 (2 :: 32 word)) \<noteq> TRACE_VERSION"
    by (simp add: file_version_def length_TRACE_MAGIC length_le_bytes le_word_le_bytes_32
        TRACE_VERSION_def)
  from f v trace_load_rejects [OF f] show ?thesis by simp
qed

section \<open>The request key of a recipe\<close>

lemma fold_add_dependency:
  "declared_deps (fold (\<lambda>p r. recipe_add_dependency r p) xs r) = declared_deps r |\<union>| fset_of_list xs \<and>
   target_name (fold (\<lambda>p r. recipe_add_dependency r p) xs r) = target_name r"
  by (induction xs arbitrary: r) (auto simp: recipe_add_dependency_def set_add_def)

lemma sort_enumeration:
  "distinct arr \<Longrightarrow> set arr = fset S \<Longrightarrow> sort arr = set_iterate S"
  by (metis set_iterate_def sorted_list_of_fset.rep_eq sorted_list_of_set_sort_remdups distinct_remdups_id)

lemma sort_set_iterate: "sort (set_iterate S) = set_iterate S"
  by (simp add: set_iterate_def sorted_list_of_fset.rep_eq sorted_sort_id)

lemma recipe_key_of_enumeration:
  "distinct arr \<Longrightarrow> set arr = fset (declared_deps r) \<Longrightarrow>
     r_request_key (recipe_compute_request_key H r code) = request_key_of H code (target_name r) arr"
  by (simp add: recipe_compute_request_key_def request_key_of_def sort_enumeration sort_set_iterate)

text \<open>
  C9. The request key that \<open>recipe_compute_request_key\<close> computes does not depend on the
  order in which the dependencies were registered: two sequences of registrations with
  the same set of paths, repetitions included, give the same key for the same recipe code
  hash and target name. Nor does it depend on the order in which the set hands out its
  values: every enumeration of the declared dependencies gives the key.
\<close>

theorem request_key_order_independent:
  "(set xs = set ys \<longrightarrow>
      r_request_key (recipe_compute_request_key H (fold (\<lambda>p r. recipe_add_dependency r p) xs r0) code) =
      r_request_key (recipe_compute_request_key H (fold (\<lambda>p r. recipe_add_dependency r p) ys r0) code)) \<and>
   (\<forall>arr. distinct arr \<and> set arr = fset (declared_deps r) \<longrightarrow>
      r_request_key (recipe_compute_request_key H r code) = request_key_of H code (target_name r) arr)"
proof -
  have "fset_of_list xs = fset_of_list ys" if "set xs = set ys"
    using that by (simp add: fset_of_list.abs_eq)
  then have "set xs = set ys \<longrightarrow>
      r_request_key (recipe_compute_request_key H (fold (\<lambda>p r. recipe_add_dependency r p) xs r0) code) =
      r_request_key (recipe_compute_request_key H (fold (\<lambda>p r. recipe_add_dependency r p) ys r0) code)"
    by (simp add: recipe_compute_request_key_def fold_add_dependency)
  then show ?thesis
    using recipe_key_of_enumeration by blast
qed

theorem request_key_order_independent_witness:
  "set [''b'', ''a'', ''b''] = set [''a'', ''b''] \<and>
   r_request_key (recipe_compute_request_key pad_hash
      (fold (\<lambda>p r. recipe_add_dependency r p) [''b'', ''a'', ''b''] (recipe_create ''t'')) zero_hash) =
   r_request_key (recipe_compute_request_key pad_hash
      (fold (\<lambda>p r. recipe_add_dependency r p) [''a'', ''b''] (recipe_create ''t'')) zero_hash)"
proof -
  have s: "set [''b'', ''a'', ''b''] = set [''a'', ''b'']" by auto
  from s request_key_order_independent [of "[''b'', ''a'', ''b'']" "[''a'', ''b'']" pad_hash "recipe_create ''t''" zero_hash]
  show ?thesis by blast
qed


section \<open>The cache probe\<close>

lemma trace_validate_no_deps: "dep_count t = 0 \<Longrightarrow> trace_validate H fs t = (True, [])"
  by (simp add: dep_count_def trace_validate_def)

text \<open>
  C10. A trace with no dependencies is valid whatever the file system holds; so when the
  trace stored under the key of the cache probe has no dependencies, the probe reports a
  cache hit.
\<close>

theorem empty_trace_is_cache_hit:
  "(dep_count t = 0 \<longrightarrow> fst (trace_validate H fs t)) \<and>
   (recipes s rn = Some r \<and>
    trace_load fs (storage s) (hash_data H (bytes_of (target_name r))) = Some t \<and> dep_count t = 0
    \<longrightarrow> fst (scheduler_check_cache H fs s rn))"
  by (auto simp: trace_validate_no_deps scheduler_check_cache_def Let_def)

lemma trace_well_formed_create: "length key = 32 \<Longrightarrow> trace_well_formed (trace_create key)"
  by (simp add: trace_well_formed_def trace_create_def dep_count_def length_zero_hash)

lemma length_writes_create:
  "length key = 32 \<Longrightarrow> length (concat (trace_writes (trace_create key))) = 96"
  by (simp add: trace_writes_def trace_create_def length_TRACE_MAGIC length_le_bytes length_zero_hash)

lemma cached_fs_load:
  "trace_load cached_fs example_storage (pad_hash (bytes_of ''app'')) =
     Some (trace_create (pad_hash (bytes_of ''app'')))"
proof -
  let ?t = "trace_create (pad_hash (bytes_of ''app''))"
  have k: "request_key ?t = pad_hash (bytes_of ''app'')" by (simp add: trace_create_def)
  have wf: "trace_well_formed ?t" by (simp add: trace_well_formed_create length_pad_hash)
  have lim: "paths_within_limit ?t" by (simp add: paths_within_limit_def trace_create_def)
  have room: "length (concat (trace_writes ?t)) \<le> avail empty_fs"
    by (simp add: empty_fs_def length_writes_create length_pad_hash)
  have "fst (trace_save empty_fs example_storage ?t)"
    by (rule trace_save_fits) (simp_all add: empty_fs_def length_writes_create length_pad_hash)
  then have "trace_save empty_fs example_storage ?t = (True, cached_fs)"
    by (cases "trace_save empty_fs example_storage ?t") (simp add: cached_fs_def)
  from trace_load_file [OF trace_save_success [OF this room]] read_trace_trace_writes [OF wf lim]
  show ?thesis by (simp add: k)
qed

theorem empty_trace_is_cache_hit_witness:
  "recipes app_sched ''app'' = Some (recipe_create ''app'') \<and>
   trace_load cached_fs (storage app_sched)
     (hash_data pad_hash (bytes_of (target_name (recipe_create ''app'')))) =
       Some (trace_create (pad_hash (bytes_of ''app''))) \<and>
   dep_count (trace_create (pad_hash (bytes_of ''app''))) = 0 \<and>
   fst (trace_validate pad_hash cached_fs (trace_create (pad_hash (bytes_of ''app'')))) \<and>
   fst (scheduler_check_cache pad_hash cached_fs app_sched ''app'')"
proof -
  have 1: "recipes app_sched ''app'' = Some (recipe_create ''app'')"
    by (simp add: app_sched_def)
  have 2: "trace_load cached_fs (storage app_sched)
     (hash_data pad_hash (bytes_of (target_name (recipe_create ''app'')))) =
       Some (trace_create (pad_hash (bytes_of ''app'')))"
    using cached_fs_load
    by (simp add: app_sched_def scheduler_create_def hash_data_def recipe_create_def)
  have 3: "dep_count (trace_create (pad_hash (bytes_of ''app''))) = 0"
    by (simp add: dep_count_def trace_create_def)
  from 1 2 3 empty_trace_is_cache_hit
    [of "trace_create (pad_hash (bytes_of ''app''))" pad_hash cached_fs app_sched "''app''"
        "recipe_create ''app''"]
  show ?thesis by blast
qed

section \<open>The request key of the cache probe\<close>

lemma check_cache_stores_name_hash:
  "recipes s rn = Some r \<Longrightarrow>
     map_option r_request_key (recipes (snd (scheduler_check_cache H fs s rn)) rn) =
       Some (hash_data H (bytes_of (target_name r)))"
  by (auto simp: scheduler_check_cache_def Let_def scheduler_mark_completed_def split: option.splits)

lemma sorted_list_of_fset_single: "sorted_list_of_fset {|x|} = [x]"
  by (simp add: sorted_list_of_fset.rep_eq)

lemma hd_pad_hash: "bs \<noteq> [] \<Longrightarrow> hd (pad_hash bs) = hd bs"
  by (cases bs) (simp_all add: pad_hash_def)

lemma pad_hash_not_Nil: "pad_hash bs \<noteq> []"
  using length_pad_hash [of bs] by auto

lemma zero_hash_not_Nil: "zero_hash \<noteq> []" and hd_zero_hash: "hd zero_hash = 0"
  using length_zero_hash by (auto simp: zero_hash_def hd_replicate)

lemma hd_hash_combine:
  "a \<noteq> [] \<Longrightarrow> b \<noteq> [] \<Longrightarrow> hd (hash_combine a b) = hd a XOR hd b"
  by (cases a; cases b) (simp_all add: hash_combine_def)

lemma hash_combine_not_Nil: "a \<noteq> [] \<Longrightarrow> b \<noteq> [] \<Longrightarrow> hash_combine a b \<noteq> []"
  by (cases a; cases b) (simp_all add: hash_combine_def)


lemma probe_sched_app: "recipes probe_sched ''app'' = Some app_with_dep"
  by (simp add: probe_sched_def)

lemma app_with_dep_fields:
  "target_name app_with_dep = ''app''" "declared_deps app_with_dep = {|''lib''|}"
  by (simp_all add: app_with_dep_def recipe_add_dependency_def recipe_create_def
      set_add_def set_create_def)

lemma specified_key_app:
  "specified_request_key pad_hash zero_hash ''app'' {|''lib''|} [] =
     hash_combine (hash_combine zero_hash (pad_hash (bytes_of ''app'')))
       (pad_hash (bytes_of ''lib''))"
  by (simp add: specified_request_key_def sorted_list_of_fset_single)

lemma specified_key_app_differs:
  "hd (specified_request_key pad_hash zero_hash ''app'' {|''lib''|} []) \<noteq>
   hd (hash_data pad_hash (bytes_of ''app''))"
  apply (simp only: specified_key_app hash_data_def)
  apply (simp add: hd_hash_combine hash_combine_not_Nil pad_hash_not_Nil zero_hash_not_Nil
      hd_zero_hash hd_pad_hash)
  apply (simp add: hd_pad_hash bytes_of_def byte_of_char_def)
  done

text \<open>
  C2 at a recipe \<open>app\<close> with the declared dependency \<open>lib\<close>, a zero recipe code hash
  and no tool. The cache probe stores the hash of the target name; the composition of
  the specification (code hash, target name, sorted dependencies, tools) is another
  value.
\<close>

theorem cache_probe_key_is_name_hash:
  "map_option r_request_key
     (recipes (snd (scheduler_check_cache pad_hash empty_fs probe_sched ''app'')) ''app'') =
     Some (hash_data pad_hash (bytes_of ''app'')) \<and>
   specified_request_key pad_hash zero_hash ''app'' (declared_deps app_with_dep) [] \<noteq>
     hash_data pad_hash (bytes_of ''app'')"
proof
  show "map_option r_request_key
     (recipes (snd (scheduler_check_cache pad_hash empty_fs probe_sched ''app'')) ''app'') =
     Some (hash_data pad_hash (bytes_of ''app''))"
    using check_cache_stores_name_hash [OF probe_sched_app, of pad_hash empty_fs]
    by (simp only: app_with_dep_fields)
  show "specified_request_key pad_hash zero_hash ''app'' (declared_deps app_with_dep) [] \<noteq>
     hash_data pad_hash (bytes_of ''app'')"
  proof
    assume "specified_request_key pad_hash zero_hash ''app'' (declared_deps app_with_dep) [] =
     hash_data pad_hash (bytes_of ''app'')"
    then have "hd (specified_request_key pad_hash zero_hash ''app'' {|''lib''|} []) =
      hd (hash_data pad_hash (bytes_of ''app''))"
      by (simp only: app_with_dep_fields)
    with specified_key_app_differs show False by (rule notE)
  qed
qed

section \<open>The trace of a completed recipe\<close>

lemma storage_set_recipe_state: "storage (set_recipe_state s rn st) = storage s"
  by (simp add: set_recipe_state_def split: option.splits)

lemma on_recipe_complete_fs:
  "recipes s rn = Some r \<Longrightarrow>
     fst (scheduler_on_recipe_complete H env (fs, s) rn True) =
       snd (trace_save fs (storage s)
              (completion_trace H r (hrtime_end env div 1000000 - start_time r)))"
  by (simp add: scheduler_on_recipe_complete_def Let_def storage_set_recipe_state
      scheduler_mark_completed_def split: option.splits)

lemma completion_trace_fields:
  "request_key (completion_trace H r el) = r_request_key r"
  "deps (completion_trace H r el) = []"
  "output_tree_hash (completion_trace H r el) = hash_data H []"
  by (simp_all add: completion_trace_def trace_create_def)

lemma completion_trace_loads:
  assumes "length (r_request_key r) = 32" and "length (H []) = 32"
    and "nodes fs (storage_get_trace_path st (r_request_key r)) = None" and "96 \<le> avail fs"
  shows "trace_load (snd (trace_save fs st (completion_trace H r el))) st (r_request_key r) =
           Some (completion_trace H r el)"
proof -
  let ?t = "completion_trace H r el"
  have wf: "trace_well_formed ?t"
    using assms(1,2)
    by (simp add: trace_well_formed_def completion_trace_def trace_create_def dep_count_def
        hash_data_def)
  have lim: "paths_within_limit ?t"
    by (simp add: paths_within_limit_def completion_trace_fields)
  have len: "length (concat (trace_writes ?t)) = 96"
    using assms(1,2)
    by (simp add: trace_writes_def completion_trace_def trace_create_def length_TRACE_MAGIC
        length_le_bytes hash_data_def)
  have room: "length (concat (trace_writes ?t)) \<le> avail fs"
    using assms(4) by (simp add: len)
  have "fst (trace_save fs st ?t)"
    using assms(3,4) by (intro trace_save_fits) (simp_all add: completion_trace_fields len)
  then have "trace_save fs st ?t = (True, snd (trace_save fs st ?t))"
    by (cases "trace_save fs st ?t") simp
  from trace_load_file [OF trace_save_success [OF this room]] read_trace_trace_writes [OF wf lim]
  show ?thesis by (simp add: completion_trace_fields)
qed

lemma trace_save_other_path:
  "p \<noteq> storage_get_trace_path st (request_key t) \<Longrightarrow>
     nodes (snd (trace_save fs st t)) p = nodes fs p"
  by (auto simp: trace_save_def Let_def fclose_w_def split: option.splits prod.splits)

lemma trace_path_absolute:
  "storage_get_trace_path example_storage key = CHR ''/'' # tl (storage_get_trace_path example_storage key)"
  by (simp add: storage_get_trace_path_def build_sharded_path_def example_storage_def)

lemma built_tree_hash:
  "hd (the (hash_tree_node pad_hash (Dir [(''app.o'', File [2])]))) \<noteq> hd (hash_data pad_hash [])"
  apply (simp add: hash_data_def)
  apply (simp add: hd_hash_combine hash_combine_not_Nil pad_hash_not_Nil zero_hash_not_Nil
      hd_zero_hash hd_pad_hash bytes_of_def)
  apply (simp add: pad_hash_def byte_of_char_def)
  done

lemma built_sched_app: "recipes built_sched ''app'' = Some built_recipe"
  by (simp add: built_sched_def)

lemma built_recipe_fields:
  "declared_deps built_recipe = {|''lib.c''|}" "output_dir built_recipe = Some ''outputs/app''"
  "r_request_key built_recipe = zero_hash" "storage built_sched = example_storage"
  by (simp_all add: built_recipe_def recipe_add_dependency_def recipe_create_def set_add_def
      set_create_def built_sched_def scheduler_create_def)

lemma built_fs_trace_path: "nodes built_fs (storage_get_trace_path example_storage key) = None"
  by (subst trace_path_absolute) (simp add: built_fs_def)

lemma built_fs_outputs:
  "nodes (snd (trace_save built_fs example_storage (completion_trace H built_recipe el))) ''outputs/app'' =
     Some (Dir [(''app.o'', File [2])])"
proof -
  have "''outputs/app'' \<noteq> storage_get_trace_path example_storage key" for key
    by (subst trace_path_absolute) simp
  then show ?thesis
    by (simp add: trace_save_other_path) (simp add: built_fs_def)
qed

text \<open>
  C1 at a recipe \<open>app\<close> that declared the dependency \<open>lib.c\<close> and whose output directory
  holds a file. After \<open>scheduler_on_recipe_complete\<close> with success, the trace in the store
  has no dependency, and its output tree hash is the hash of the empty string, not the
  tree hash of the output directory.
\<close>

theorem completion_saves_trace_without_deps:
  "declared_deps built_recipe = {|''lib.c''|} \<and>
   output_dir built_recipe = Some ''outputs/app'' \<and>
   map_option deps
     (trace_load (fst (scheduler_on_recipe_complete pad_hash env0 (built_fs, built_sched) ''app'' True))
        (storage built_sched) (r_request_key built_recipe)) = Some [] \<and>
   map_option output_tree_hash
     (trace_load (fst (scheduler_on_recipe_complete pad_hash env0 (built_fs, built_sched) ''app'' True))
        (storage built_sched) (r_request_key built_recipe)) = Some (hash_data pad_hash []) \<and>
   hash_tree pad_hash
     (fst (scheduler_on_recipe_complete pad_hash env0 (built_fs, built_sched) ''app'' True))
     ''outputs/app'' \<noteq> Some (hash_data pad_hash [])"
proof -
  let ?el = "hrtime_end env0 div 1000000 - start_time built_recipe"
  let ?fs = "fst (scheduler_on_recipe_complete pad_hash env0 (built_fs, built_sched) ''app'' True)"
  have fs: "?fs = snd (trace_save built_fs example_storage (completion_trace pad_hash built_recipe ?el))"
    using on_recipe_complete_fs [OF built_sched_app, of pad_hash env0 built_fs]
    by (simp only: built_recipe_fields)
  have ld: "trace_load ?fs example_storage zero_hash = Some (completion_trace pad_hash built_recipe ?el)"
    using completion_trace_loads [of built_recipe pad_hash built_fs example_storage ?el]
    by (simp add: fs built_recipe_fields length_zero_hash length_pad_hash built_fs_trace_path)
       (simp add: built_fs_def)
  have tree: "hash_tree pad_hash ?fs ''outputs/app'' \<noteq> Some (hash_data pad_hash [])"
  proof
    assume "hash_tree pad_hash ?fs ''outputs/app'' = Some (hash_data pad_hash [])"
    then have "hash_tree_node pad_hash (Dir [(''app.o'', File [2])]) = Some (hash_data pad_hash [])"
      by (simp add: fs hash_tree_def stat_def built_fs_outputs del: hash_tree_node.simps)
    then have "hd (the (hash_tree_node pad_hash (Dir [(''app.o'', File [2])]))) = hd (hash_data pad_hash [])"
      by (simp del: hash_tree_node.simps)
    with built_tree_hash show False by (rule notE)
  qed
  from ld tree show ?thesis
    by (simp add: built_recipe_fields completion_trace_fields)
qed

section \<open>Pending dependencies of a completed recipe\<close>

declare scheduler_run_loop.simps [simp del]

text \<open>
  C8, part (b), on the two ways in which a recipe becomes Complete. First the two
  handlers of the scheduler that a request of the running \<open>app\<close> for the built \<open>lib\<close>
  goes through: \<open>scheduler_on_depend_request\<close> answers with the published path, and
  \<open>recipe_add_dependency\<close> has put \<open>lib\<close> into the pending dependencies as well as the
  declared ones; \<open>scheduler_on_recipe_complete\<close> then makes \<open>app\<close> Complete, and \<open>lib\<close>
  is still pending. Second the cache probe of a recipe \<open>app\<close> on which
  \<open>recipe_add_dependency\<close> has registered \<open>lib\<close>: the probe finds a valid trace and makes
  \<open>app\<close> Complete, and \<open>lib\<close> is still pending. Nothing ever removes a value from
  \<open>pending_deps\<close>.
\<close>

theorem complete_recipe_keeps_pending_deps:
  "(case scheduler_on_depend_request answered_sched ''app'' ''lib'' of
      (path, s1) \<Rightarrow>
        (case scheduler_on_recipe_complete pad_hash env0 (empty_fs, s1) ''app'' True of
           (fs2, s2) \<Rightarrow>
             (path, map_option state (recipes s2 ''app''),
              map_option pending_deps (recipes s2 ''app''),
              map_option declared_deps (recipes s2 ''app'')))) =
   (Some ''outputs/lib'', Some RECIPE_COMPLETE, Some {|''lib''|}, Some {|''lib''|}) \<and>
   (case scheduler_check_cache pad_hash cached_fs probe_sched ''app'' of
      (hit, s) \<Rightarrow>
        (hit, map_option state (recipes s ''app''), map_option pending_deps (recipes s ''app''))) =
   (True, Some RECIPE_COMPLETE, Some {|''lib''|})"
proof (rule conjI)
  show "(case scheduler_on_depend_request answered_sched ''app'' ''lib'' of
      (path, s1) \<Rightarrow>
        (case scheduler_on_recipe_complete pad_hash env0 (empty_fs, s1) ''app'' True of
           (fs2, s2) \<Rightarrow>
             (path, map_option state (recipes s2 ''app''),
              map_option pending_deps (recipes s2 ''app''),
              map_option declared_deps (recipes s2 ''app'')))) =
   (Some ''outputs/lib'', Some RECIPE_COMPLETE, Some {|''lib''|}, Some {|''lib''|})"
    by (simp add: answered_sched_def scheduler_create_def recipe_create_def set_create_def
        scheduler_on_depend_request_def scheduler_get_completed_def recipe_add_dependency_def
        set_add_def scheduler_on_recipe_complete_def Let_def set_recipe_state_def
        scheduler_mark_completed_def)
next
  have v: "trace_validate pad_hash cached_fs (trace_create (pad_hash (bytes_of ''app''))) = (True, [])"
    by (rule trace_validate_no_deps) (simp add: dep_count_def trace_create_def)
  show "(case scheduler_check_cache pad_hash cached_fs probe_sched ''app'' of
      (hit, s) \<Rightarrow>
        (hit, map_option state (recipes s ''app''), map_option pending_deps (recipes s ''app''))) =
   (True, Some RECIPE_COMPLETE, Some {|''lib''|})"
    by (simp add: scheduler_check_cache_def probe_sched_def scheduler_create_def app_with_dep_def
        recipe_add_dependency_def recipe_create_def set_add_def set_create_def hash_data_def
        cached_fs_load v Let_def scheduler_mark_completed_def)
qed

section \<open>Dependency requests\<close>

lemma sched_inv_create: "sched_inv (scheduler_create st)"
  by (simp add: sched_inv_def scheduler_create_def)

lemma sched_inv_get_recipe: "sched_inv s \<Longrightarrow> sched_inv (snd (scheduler_get_recipe s tn))"
  by (auto simp: sched_inv_def scheduler_get_recipe_def recipe_create_def set_create_def
      split: option.splits)

lemma sched_inv_set_state:
  "sched_inv s \<Longrightarrow> st \<noteq> RECIPE_COMPLETE \<or> completed s rn \<noteq> None \<Longrightarrow>
     sched_inv (set_recipe_state s rn st)"
  by (auto simp: sched_inv_def set_recipe_state_def split: option.splits)

lemma sched_inv_queue_push: "sched_inv (queue_push s rn) = sched_inv s"
  by (simp add: sched_inv_def queue_push_def)

lemma sched_inv_add_waiter: "sched_inv (add_waiter s tn rn) = sched_inv s"
  by (simp add: sched_inv_def add_waiter_def)

lemma sched_inv_add_dependency:
  "sched_inv s \<Longrightarrow> recipes s rn = Some r \<Longrightarrow>
     sched_inv (s\<lparr>recipes := (recipes s)(rn \<mapsto> recipe_add_dependency r p)\<rparr>)"
  by (auto simp: sched_inv_def recipe_add_dependency_def set_add_def)

lemma sched_inv_depend_request:
  assumes "sched_inv s"
  shows "sched_inv (snd (scheduler_on_depend_request s rn tn))"
proof (cases "recipes s rn")
  case None
  with assms show ?thesis by (simp add: scheduler_on_depend_request_def)
next
  case (Some r)
  let ?s1 = "s\<lparr>recipes := (recipes s)(rn \<mapsto> recipe_add_dependency r tn)\<rparr>"
  have 1: "sched_inv ?s1" using assms Some by (rule sched_inv_add_dependency)
  have 2: "sched_inv (snd (scheduler_get_recipe ?s1 tn))" using 1 by (rule sched_inv_get_recipe)
  show ?thesis
    using Some 1 2
    by (auto simp: scheduler_on_depend_request_def Let_def scheduler_get_completed_def
        sched_inv_queue_push sched_inv_add_waiter sched_inv_set_state
        split: option.splits prod.splits)
qed

text \<open>
  C6. In a state of the scheduler where recipe \<open>R\<close> (named \<open>rn\<close>) exists, a dependency
  request of \<open>R\<close> for the target \<open>N\<close> (named \<open>tn\<close>) gives exactly this. \<open>N\<close> is added
  to the declared and to the pending dependencies of \<open>R\<close>, which keep the values they
  had. If \<open>completed[N]\<close> exists, its path is returned and nothing else changes: \<open>R\<close>
  keeps its state, and the recipes, the waiter lists and the ready queue are as before.
  Otherwise nothing is returned, \<open>R\<close> becomes Suspended and is put in front of the
  waiters of \<open>N\<close>, which are kept; a recipe for \<open>N\<close> is created, Pending, when there was
  none; and \<open>N\<close> is appended to the ready queue exactly when its recipe is Pending (or
  was just created), so that a Running, Suspended or Failed dependency is not queued
  again. Every other recipe, waiter list and field of the scheduler stays as it was.
\<close>

theorem depend_request:
  assumes "sched_inv s" and "recipes s rn = Some r"
  shows "scheduler_on_depend_request s rn tn =
     (case completed s tn of
        Some path \<Rightarrow>
          (Some path,
           s\<lparr>recipes := (recipes s)(rn \<mapsto>
                r\<lparr>declared_deps := finsert tn (declared_deps r),
                  pending_deps := finsert tn (pending_deps r)\<rparr>)\<rparr>)
      | None \<Rightarrow>
          (None,
           s\<lparr>recipes :=
                (case recipes s tn of
                   None \<Rightarrow> (recipes s)(tn \<mapsto> recipe_create tn)
                 | Some d \<Rightarrow> recipes s)
                (rn \<mapsto> r\<lparr>declared_deps := finsert tn (declared_deps r),
                          pending_deps := finsert tn (pending_deps r),
                          state := RECIPE_SUSPENDED\<rparr>),
              waiting := (waiting s)(tn \<mapsto> rn # (case waiting s tn of None \<Rightarrow> [] | Some ws \<Rightarrow> ws)),
              ready_queue :=
                (if (case recipes s tn of None \<Rightarrow> True | Some d \<Rightarrow> state d = RECIPE_PENDING)
                 then ready_queue s @ [tn] else ready_queue s)\<rparr>))"
proof (cases "completed s tn")
  case (Some p)
  with assms(2) show ?thesis
    by (simp add: scheduler_on_depend_request_def scheduler_get_completed_def
        recipe_add_dependency_def set_add_def)
next
  case None
  have nc: "state d \<noteq> RECIPE_COMPLETE" if "recipes s tn = Some d" for d
    using assms(1) None that unfolding sched_inv_def by blast
  show ?thesis
  proof (cases "rn = tn")
    case True
    with assms(2) None nc [of r] show ?thesis
      by (simp add: scheduler_on_depend_request_def scheduler_get_completed_def Let_def
          scheduler_get_recipe_def recipe_add_dependency_def set_add_def
          queue_push_def add_waiter_def set_recipe_state_def waiter_list_add_def)
  next
    case False
    show ?thesis
    proof (cases "recipes s tn")
      case nd: None
      with assms(2) None False show ?thesis
        by (simp add: scheduler_on_depend_request_def scheduler_get_completed_def Let_def
            scheduler_get_recipe_def recipe_add_dependency_def set_add_def recipe_create_def
            queue_push_def add_waiter_def set_recipe_state_def waiter_list_add_def fun_upd_twist)
    next
      case (Some d)
      with assms(2) None False nc [of d] show ?thesis
        by (simp add: scheduler_on_depend_request_def scheduler_get_completed_def Let_def
            scheduler_get_recipe_def recipe_add_dependency_def set_add_def
            queue_push_def add_waiter_def set_recipe_state_def waiter_list_add_def)
    qed
  qed
qed

text \<open>
  The request of the running \<open>app\<close> for \<open>lib\<close>, which is running and has the waiter
  \<open>other\<close>: \<open>app\<close> is suspended and joins \<open>other\<close>, keeps its dependency \<open>x\<close>, and
  \<open>lib\<close> is not queued. Its request for \<open>new\<close>, which has no recipe: one is created and
  queued.
\<close>

theorem depend_request_witness:
  "sched_inv busy_sched \<and>
   map_option state (recipes busy_sched ''app'') = Some RECIPE_RUNNING \<and>
   map_option declared_deps (recipes busy_sched ''app'') = Some {|''x''|} \<and>
   map_option state (recipes busy_sched ''lib'') = Some RECIPE_RUNNING \<and>
   waiting busy_sched ''lib'' = Some [''other''] \<and>
   ready_queue busy_sched = [] \<and>
   completed busy_sched ''lib'' = None \<and>
   fst (scheduler_on_depend_request busy_sched ''app'' ''lib'') = None \<and>
   map_option state (recipes (snd (scheduler_on_depend_request busy_sched ''app'' ''lib'')) ''app'') =
     Some RECIPE_SUSPENDED \<and>
   map_option declared_deps (recipes (snd (scheduler_on_depend_request busy_sched ''app'' ''lib'')) ''app'') =
     Some {|''lib'', ''x''|} \<and>
   waiting (snd (scheduler_on_depend_request busy_sched ''app'' ''lib'')) ''lib'' =
     Some [''app'', ''other''] \<and>
   ready_queue (snd (scheduler_on_depend_request busy_sched ''app'' ''lib'')) = [] \<and>
   ready_queue (snd (scheduler_on_depend_request busy_sched ''app'' ''new'')) = [''new''] \<and>
   map_option state (recipes (snd (scheduler_on_depend_request busy_sched ''app'' ''new'')) ''new'') =
     Some RECIPE_PENDING"
proof -
  have i: "sched_inv busy_sched"
    by (simp add: sched_inv_def busy_sched_def scheduler_create_def recipe_create_def set_create_def
        recipe_add_dependency_def set_add_def)
  have r: "recipes busy_sched ''app'' =
      Some ((recipe_add_dependency (recipe_create ''app'') ''x'')\<lparr>state := RECIPE_RUNNING\<rparr>)"
    by (simp add: busy_sched_def)
  have c: "completed busy_sched tn = None" "ready_queue busy_sched = []"
    "waiting busy_sched ''lib'' = Some [''other'']"
    "recipes busy_sched ''lib'' = Some ((recipe_create ''lib'')\<lparr>state := RECIPE_RUNNING\<rparr>)"
    "recipes busy_sched ''new'' = None" for tn
    by (simp_all add: busy_sched_def scheduler_create_def)
  from i r c depend_request [OF i r, of "''lib''"] depend_request [OF i r, of "''new''"]
  show ?thesis
    by (simp add: recipe_add_dependency_def set_add_def recipe_create_def set_create_def)
qed

section \<open>The first failure ends the build\<close>

lemma same_outcome_refl: "same_outcome s s"
  by (simp add: same_outcome_def)

lemma same_outcome_trans: "same_outcome s s' \<Longrightarrow> same_outcome s' s'' \<Longrightarrow> same_outcome s s''"
  by (simp add: same_outcome_def)

lemma keeps_recipe_refl: "keeps_recipe rn s s"
  by (simp add: keeps_recipe_def split: option.splits)

lemma keeps_recipe_trans:
  "keeps_recipe rn s s' \<Longrightarrow> keeps_recipe rn s' s'' \<Longrightarrow> keeps_recipe rn s s''"
  by (auto simp: keeps_recipe_def split: option.splits)

lemma depend_request_same_outcome:
  "same_outcome s (snd (scheduler_on_depend_request s rn tn))"
  by (auto simp: scheduler_on_depend_request_def same_outcome_def Let_def
      scheduler_get_completed_def scheduler_get_recipe_def queue_push_def add_waiter_def
      set_recipe_state_def split: option.splits)

lemma depend_request_keeps_recipe:
  "keeps_recipe rn' s (snd (scheduler_on_depend_request s rn tn))"
  by (auto simp: scheduler_on_depend_request_def keeps_recipe_def Let_def
      scheduler_get_completed_def scheduler_get_recipe_def queue_push_def add_waiter_def
      set_recipe_state_def recipe_add_dependency_def split: option.splits)

lemma run_script_frame:
  "same_outcome (snd w) (snd (snd (run_script cb k rn w))) \<and>
   keeps_recipe rn' (snd w) (snd (snd (run_script cb k rn w)))"
proof (induction k arbitrary: w)
  case (Finish ok)
  show ?case by (simp add: same_outcome_refl keeps_recipe_refl)
next
  case (Depend_on tn k)
  show ?case
  proof (cases cb)
    case False
    with Depend_on.IH [of "k None" w] show ?thesis by simp
  next
    case True
    obtain path s' where r: "scheduler_on_depend_request (snd w) rn tn = (path, s')"
      by (cases "scheduler_on_depend_request (snd w) rn tn")
    have 1: "same_outcome (snd w) s'" "keeps_recipe rn' (snd w) s'"
      using depend_request_same_outcome [of "snd w" rn tn]
            depend_request_keeps_recipe [of rn' "snd w" rn tn] by (simp_all add: r)
    have 2: "same_outcome s' (snd (snd (run_script cb (k path) rn (fst w, s'))))"
      "keeps_recipe rn' s' (snd (snd (run_script cb (k path) rn (fst w, s'))))"
      using Depend_on.IH [of "k path" "(fst w, s')"] by simp_all
    from 1 2 True show ?thesis
      by (auto simp: r intro: same_outcome_trans keeps_recipe_trans)
  qed
next
  case (Register_dep p k)
  let ?s = "case recipes (snd w) rn of None \<Rightarrow> snd w
            | Some recipe \<Rightarrow> (snd w)\<lparr>recipes := (recipes (snd w))(rn \<mapsto> recipe_add_dependency recipe p)\<rparr>"
  have 1: "same_outcome (snd w) ?s" "keeps_recipe rn' (snd w) ?s"
    by (auto simp: same_outcome_def keeps_recipe_def recipe_add_dependency_def split: option.splits)
  have 2: "same_outcome ?s (snd (snd (run_script cb k rn (fst w, ?s))))"
    "keeps_recipe rn' ?s (snd (snd (run_script cb k rn (fst w, ?s))))"
    using Register_dep.IH [of "(fst w, ?s)"] by simp_all
  from 1 2 show ?case
    by (auto intro: same_outcome_trans keeps_recipe_trans)
next
  case (Host_io e k)
  from Host_io.IH [of "(e (fst w), snd w)"] show ?case by simp
qed

lemma resume_fiber_frame:
  "same_outcome (snd w) (snd (snd (umka_resume_fiber env k rn w))) \<and>
   keeps_recipe rn' (snd w) (snd (snd (umka_resume_fiber env k rn w)))"
  using run_script_frame [of w "depend_on_callback env" k rn rn']
  by (simp add: umka_resume_fiber_def same_outcome_refl keeps_recipe_refl)

lemma on_recipe_complete_failure:
  assumes "recipes s rn = Some r"
  shows "scheduler_on_recipe_complete H env (fs, s) rn False =
    (fs, s\<lparr>recipes := (recipes s)(rn \<mapsto> r\<lparr>state := RECIPE_FAILED\<rparr>),
            active_count := active_count s - 1,
            failed := True, target_error := Some (target_name r),
            events := events s @ [Recipe_failed (target_name r)]\<rparr>)"
  using assms by (simp add: scheduler_on_recipe_complete_def Let_def set_recipe_state_def)

lemma resume_same_outcome: "same_outcome s (scheduler_resume_recipe s rn)"
  by (auto simp: scheduler_resume_recipe_def same_outcome_def queue_push_def set_recipe_state_def
      split: option.splits)

lemma notify_all_same_outcome: "same_outcome s (waiter_list_notify_all ws s)"
  unfolding waiter_list_notify_all_def
proof (induction ws arbitrary: s)
  case Nil
  show ?case by (simp add: same_outcome_refl)
next
  case (Cons w ws)
  from resume_same_outcome [of s w] Cons.IH [of "scheduler_resume_recipe s w"]
  show ?case by (auto intro: same_outcome_trans)
qed

lemma on_recipe_complete_success:
  assumes "recipes s rn = Some r"
  shows "events (snd (scheduler_on_recipe_complete H env (fs, s) rn True)) =
           events s @ [Recipe_succeeded (target_name r)] \<and>
         failed (snd (scheduler_on_recipe_complete H env (fs, s) rn True)) = failed s \<and>
         target_error (snd (scheduler_on_recipe_complete H env (fs, s) rn True)) = target_error s"
proof -
  let ?s1 = "set_recipe_state
     (s\<lparr>active_count := active_count s - 1,
        events := events s @ [Recipe_succeeded (target_name r)]\<rparr>) rn RECIPE_COMPLETE"
  let ?s2 = "scheduler_mark_completed ?s1 (target_name r)
     (case output_dir r of Some d \<Rightarrow> d | None \<Rightarrow> ''outputs'')"
  have s2: "events ?s2 = events s @ [Recipe_succeeded (target_name r)]"
    "failed ?s2 = failed s" "target_error ?s2 = target_error s"
    using assms by (simp_all add: set_recipe_state_def scheduler_mark_completed_def)
  have n: "same_outcome ?s2 (waiter_list_notify_all ws ?s2)" for ws
    by (rule notify_all_same_outcome)
  show ?thesis
    using assms s2 n
    by (auto simp: scheduler_on_recipe_complete_def Let_def same_outcome_def split: option.splits)
qed

lemma execute_recipe_outcome:
  assumes "recipes (snd w) rn = Some r"
  shows "step_outcome (snd w) (target_name r) (snd (scheduler_execute_recipe H env w rn))"
proof -
  obtain r1 fs1 where tmp: "prepare_directories env (storage (snd w)) (fst w)
      (r\<lparr>state := RECIPE_RUNNING, start_time := hrtime_start env div 1000000\<rparr>) = (r1, fs1)"
    by (metis surj_pair)
  have n1: "target_name r1 = target_name r"
    using tmp
    by (auto simp: prepare_directories_def Let_def recipe_set_output_dir_def
        split: option.splits prod.splits)
  define s1 where "s1 = (snd w)\<lparr>events := events (snd w) @ [Executing (target_name r)],
                      active_count := active_count (snd w) + 1,
                      recipes := (recipes (snd w))(rn \<mapsto> r1)\<rparr>"
  have ex: "scheduler_execute_recipe H env w rn =
      (case (umka s1, registry s1) of
               (Some functions, Some targets) \<Rightarrow>
                 (case targets (target_name r) of
                    None \<Rightarrow> scheduler_on_recipe_complete H env (fs1, s1) rn False
                  | Some function_name \<Rightarrow>
                      (case functions function_name of
                         None \<Rightarrow> scheduler_on_recipe_complete H env (fs1, s1) rn False
                       | Some fiber \<Rightarrow>
                           (case umka_resume_fiber env fiber rn (fs1, s1) of
                              (success, w2) \<Rightarrow> scheduler_on_recipe_complete H env w2 rn success)))
             | _ \<Rightarrow> scheduler_on_recipe_complete H env (fs1, s1) rn False)"
    using assms unfolding s1_def
    by (auto simp: scheduler_execute_recipe_def Let_def tmp split: option.splits)
  have r1: "recipes s1 rn = Some r1" by (simp add: s1_def)
  have e1: "events s1 = events (snd w) @ [Executing (target_name r)]"
    "failed s1 = failed (snd w)" "target_error s1 = target_error (snd w)"
    by (simp_all add: s1_def)
  have fin: "step_outcome (snd w) (target_name r)
               (snd (scheduler_on_recipe_complete H env (fs2, s2) rn b))"
    if so: "same_outcome s1 s2" and kr: "keeps_recipe rn s1 s2" for fs2 s2 b
  proof -
    from kr r1 n1 obtain r2 where r2: "recipes s2 rn = Some r2" "target_name r2 = target_name r"
      by (auto simp: keeps_recipe_def split: option.splits)
    from so e1 have e: "events s2 = events (snd w) @ [Executing (target_name r)]"
      "failed s2 = failed (snd w)" "target_error s2 = target_error (snd w)"
      by (simp_all add: same_outcome_def)
    show ?thesis
    proof (cases b)
      case True
      with on_recipe_complete_success [OF r2(1), of H env fs2] r2(2) e show ?thesis
        by (simp add: step_outcome_def)
    next
      case False
      with on_recipe_complete_failure [OF r2(1), of H env fs2] r2(2) e show ?thesis
        by (simp add: step_outcome_def)
    qed
  qed
  have nofn: "step_outcome (snd w) (target_name r)
               (snd (scheduler_on_recipe_complete H env (fs1, s1) rn False))"
    by (rule fin [OF same_outcome_refl keeps_recipe_refl])
  have scr: "step_outcome (snd w) (target_name r)
               (snd (case umka_resume_fiber env k rn (fs1, s1) of
                       (success, w2) \<Rightarrow> scheduler_on_recipe_complete H env w2 rn success))" for k
  proof -
    obtain b fs2 s2 where rs: "umka_resume_fiber env k rn (fs1, s1) = (b, fs2, s2)"
      by (metis surj_pair)
    from resume_fiber_frame [of "(fs1, s1)" env k rn rn] rs
    have "same_outcome s1 s2" "keeps_recipe rn s1 s2" by simp_all
    from fin [OF this] show ?thesis by (simp add: rs)
  qed
  show ?thesis
    unfolding ex using nofn scr
    by (simp split: option.splits)
qed

text \<open>
  Without an interpreter in the context of the bridge, which is how
  \<open>scheduler_execute_recipe\<close> leaves it as the sources stand, no function runs and the
  executed recipe fails.
\<close>

lemma execute_without_interpreter:
  assumes "recipes (snd w) rn = Some r" and "\<not> context_umka env"
  shows "failed (snd (scheduler_execute_recipe H env w rn)) \<and>
         target_error (snd (scheduler_execute_recipe H env w rn)) = Some (target_name r) \<and>
         map_option state (recipes (snd (scheduler_execute_recipe H env w rn)) rn) = Some RECIPE_FAILED"
proof -
  obtain r1 fs1 where tmp: "prepare_directories env (storage (snd w)) (fst w)
      (r\<lparr>state := RECIPE_RUNNING, start_time := hrtime_start env div 1000000\<rparr>) = (r1, fs1)"
    by (metis surj_pair)
  have n1: "target_name r1 = target_name r"
    using tmp
    by (auto simp: prepare_directories_def Let_def recipe_set_output_dir_def
        split: option.splits prod.splits)
  define s1 where "s1 = (snd w)\<lparr>events := events (snd w) @ [Executing (target_name r)],
                      active_count := active_count (snd w) + 1,
                      recipes := (recipes (snd w))(rn \<mapsto> r1)\<rparr>"
  have ex: "scheduler_execute_recipe H env w rn = scheduler_on_recipe_complete H env (fs1, s1) rn False"
    using assms unfolding s1_def
    by (auto simp: scheduler_execute_recipe_def Let_def tmp umka_resume_fiber_def split: option.splits)
  have r1: "recipes s1 rn = Some r1" by (simp add: s1_def)
  show ?thesis
    by (simp add: ex on_recipe_complete_failure [OF r1] n1)
qed

lemma run_loop_failed: "failed (snd w) \<Longrightarrow> scheduler_run_loop H envs n w = Some w"
  by (subst scheduler_run_loop.simps) simp

lemma run_loop_log:
  "scheduler_run_loop H envs n w = Some w' \<Longrightarrow> \<not> failed (snd w) \<Longrightarrow>
     \<exists>pre. \<not> list_ex is_recipe_failed pre \<and>
       (if failed (snd w')
        then \<exists>t. events (snd w') = events (snd w) @ pre @ [Recipe_failed t] \<and>
                 target_error (snd w') = Some t
        else events (snd w') = events (snd w) @ pre)"
proof (induction n arbitrary: w)
  case 0
  then have "w' = w"
    by (subst (asm) scheduler_run_loop.simps) (simp split: if_splits)
  with 0 show ?case by (intro exI [of _ "[]"]) simp
next
  case (Suc m)
  show ?case
  proof (cases "queue_is_empty (snd w)")
    case True
    with Suc.prems have "w' = w"
      by (subst (asm) scheduler_run_loop.simps) simp
    with Suc.prems show ?thesis by (intro exI [of _ "[]"]) simp
  next
    case False
    let ?rn = "hd (ready_queue (snd w))"
    let ?w1 = "(fst w, (snd w)\<lparr>ready_queue := tl (ready_queue (snd w))\<rparr>)"
    have unf: "scheduler_run_loop H envs (Suc m) w =
        (case recipes (snd ?w1) ?rn of
           None \<Rightarrow> scheduler_run_loop H envs m ?w1
         | Some recipe \<Rightarrow>
             if state recipe = RECIPE_COMPLETE then scheduler_run_loop H envs m ?w1
             else scheduler_run_loop H envs m (scheduler_execute_recipe H (envs m) ?w1 ?rn))"
      using False Suc.prems(2)
      by (subst scheduler_run_loop.simps) (simp add: Let_def)
    have nf1: "\<not> failed (snd ?w1)" using Suc.prems(2) by simp
    have skip: ?thesis if "scheduler_run_loop H envs m ?w1 = Some w'"
      using Suc.IH [OF that nf1] by (simp cong: if_cong)
    show ?thesis
    proof (cases "recipes (snd ?w1) ?rn")
      case None
      with Suc.prems(1) unf show ?thesis by (simp add: skip)
    next
      case (Some r)
      show ?thesis
      proof (cases "state r = RECIPE_COMPLETE")
        case True
        with Some Suc.prems(1) unf show ?thesis by (simp add: skip)
      next
        case nc: False
        let ?w2 = "scheduler_execute_recipe H (envs m) ?w1 ?rn"
        from Some nc Suc.prems(1) unf have run: "scheduler_run_loop H envs m ?w2 = Some w'"
          by simp
        from execute_recipe_outcome [OF Some, of H "envs m"]
        have so: "step_outcome (snd ?w1) (target_name r) (snd ?w2)" .
        show ?thesis
        proof (cases "failed (snd ?w2)")
          case True
          with run have w': "w' = ?w2" by (simp add: run_loop_failed)
          from so True Suc.prems(2)
          have "events (snd ?w2) = events (snd w) @ [Executing (target_name r)] @ [Recipe_failed (target_name r)]"
            "target_error (snd ?w2) = Some (target_name r)"
            by (auto simp: step_outcome_def)
          with True w' show ?thesis
            by (intro exI [of _ "[Executing (target_name r)]"]) simp
        next
          case False
          with so Suc.prems(2)
          have ev: "events (snd ?w2) = events (snd w) @ [Executing (target_name r), Recipe_succeeded (target_name r)]"
            by (auto simp: step_outcome_def)
          from Suc.IH [OF run False] obtain pre where
            pre: "\<not> list_ex is_recipe_failed pre"
              "if failed (snd w')
               then \<exists>t. events (snd w') = events (snd ?w2) @ pre @ [Recipe_failed t] \<and>
                        target_error (snd w') = Some t
               else events (snd w') = events (snd ?w2) @ pre"
            by blast
          then show ?thesis
            by (intro exI [of _ "[Executing (target_name r), Recipe_succeeded (target_name r)] @ pre"])
               (auto simp: ev split: if_splits)
        qed
      qed
    qed
  qed
qed

lemma run_returns_after_failure:
  assumes "\<not> failed s" and "ready_queue s = rn # q" and "recipes s rn = Some r"
    and "state r \<noteq> RECIPE_COMPLETE"
    and "failed (snd (scheduler_execute_recipe H (envs n) (fs, s\<lparr>ready_queue := q\<rparr>) rn))"
  shows "scheduler_run H envs (Suc n) (fs, s) =
           Some (REBUILD_ERROR_EXEC,
                 fst (scheduler_execute_recipe H (envs n) (fs, s\<lparr>ready_queue := q\<rparr>) rn),
                 (snd (scheduler_execute_recipe H (envs n) (fs, s\<lparr>ready_queue := q\<rparr>) rn))
                   \<lparr>events := events s @ [Executing (target_name r), Recipe_failed (target_name r),
                                           Build_failed (Some (target_name r))]\<rparr>)"
proof -
  let ?w1 = "(fs, s\<lparr>ready_queue := q\<rparr>)"
  let ?w2 = "scheduler_execute_recipe H (envs n) ?w1 rn"
  have r: "recipes (snd ?w1) rn = Some r" using assms(3) by simp
  from execute_recipe_outcome [OF r, of H "envs n"] assms(1,5)
  have o: "events (snd ?w2) = events s @ [Executing (target_name r), Recipe_failed (target_name r)]"
    "target_error (snd ?w2) = Some (target_name r)"
    by (auto simp: step_outcome_def)
  have "scheduler_run_loop H envs (Suc n) (fs, s) = scheduler_run_loop H envs n ?w2"
    using assms(1-4)
    by (subst scheduler_run_loop.simps) (simp add: queue_is_empty_def Let_def)
  also have "\<dots> = Some ?w2" using assms(5) by (rule run_loop_failed)
  finally have l: "scheduler_run_loop H envs (Suc n) (fs, s) = Some ?w2" .
  obtain fs2 s2 where w2: "?w2 = (fs2, s2)" by (cases ?w2)
  with assms(5) o have "failed s2"
    "events s2 = events s @ [Executing (target_name r), Recipe_failed (target_name r)]"
    "target_error s2 = Some (target_name r)"
    by simp_all
  then show ?thesis
    by (simp add: scheduler_run_def l w2)
qed

text \<open>
  C7. \<open>scheduler_on_recipe_complete\<close> with \<open>success = false\<close> sets the state of the
  recipe to Failed, sets the failure flag and records the target's name; the waiter lists
  and the ready queue are as before, so no waiter is resumed. With the flag set,
  \<open>scheduler_run\<close> returns the build failure at once, in the same state: no recipe is
  executed. And a run that starts without a failure and ends with one returns the build
  failure; its log ends with the failure of one target, the first and only recipe that
  failed, and the report that names it: nothing was executed after that failure. The run
does return then: when the recipe at the head of the queue is executed and fails, the
failure is returned in that iteration, whatever is left in the queue.
\<close>

theorem failure_stops_the_build:
  "(recipes s rn = Some r \<longrightarrow>
      scheduler_on_recipe_complete H env (fs, s) rn False =
        (fs, s\<lparr>recipes := (recipes s)(rn \<mapsto> r\<lparr>state := RECIPE_FAILED\<rparr>),
                active_count := active_count s - 1,
                failed := True, target_error := Some (target_name r),
                events := events s @ [Recipe_failed (target_name r)]\<rparr>)) \<and>
   (failed s \<longrightarrow>
      scheduler_run H envs n (fs, s) =
        Some (REBUILD_ERROR_EXEC, fs, s\<lparr>events := events s @ [Build_failed (target_error s)]\<rparr>)) \<and>
   (\<not> failed s \<and> scheduler_run H envs n (fs, s) = Some (err, fs', s') \<and> failed s' \<longrightarrow>
      err = REBUILD_ERROR_EXEC \<and>
      (\<exists>pre t. \<not> list_ex is_recipe_failed pre \<and>
          events s' = events s @ pre @ [Recipe_failed t, Build_failed (Some t)] \<and>
          target_error s' = Some t)) \<and>
   (\<not> failed s \<and> ready_queue s = rn # q \<and> recipes s rn = Some r \<and>
    state r \<noteq> RECIPE_COMPLETE \<and>
    failed (snd (scheduler_execute_recipe H (envs n) (fs, s\<lparr>ready_queue := q\<rparr>) rn)) \<longrightarrow>
      scheduler_run H envs (Suc n) (fs, s) =
        Some (REBUILD_ERROR_EXEC,
              fst (scheduler_execute_recipe H (envs n) (fs, s\<lparr>ready_queue := q\<rparr>) rn),
              (snd (scheduler_execute_recipe H (envs n) (fs, s\<lparr>ready_queue := q\<rparr>) rn))
                \<lparr>events := events s @ [Executing (target_name r), Recipe_failed (target_name r),
                                        Build_failed (Some (target_name r))]\<rparr>))"
proof (intro conjI impI)
  assume "recipes s rn = Some r"
  then show "scheduler_on_recipe_complete H env (fs, s) rn False =
        (fs, s\<lparr>recipes := (recipes s)(rn \<mapsto> r\<lparr>state := RECIPE_FAILED\<rparr>),
                active_count := active_count s - 1,
                failed := True, target_error := Some (target_name r),
                events := events s @ [Recipe_failed (target_name r)]\<rparr>)"
    by (rule on_recipe_complete_failure)
next
  assume "failed s"
  then show "scheduler_run H envs n (fs, s) =
        Some (REBUILD_ERROR_EXEC, fs, s\<lparr>events := events s @ [Build_failed (target_error s)]\<rparr>)"
    by (simp add: scheduler_run_def run_loop_failed)
next
  assume a: "\<not> failed s \<and> scheduler_run H envs n (fs, s) = Some (err, fs', s') \<and> failed s'"
  then obtain s1 where l: "scheduler_run_loop H envs n (fs, s) = Some (fs', s1)"
    and f1: "failed s1" and e: "err = REBUILD_ERROR_EXEC"
    and s': "s' = s1\<lparr>events := events s1 @ [Build_failed (target_error s1)]\<rparr>"
    by (auto simp: scheduler_run_def split: option.splits if_splits)
  from run_loop_log [OF l] a f1 obtain pre t where
    "\<not> list_ex is_recipe_failed pre" "events s1 = events s @ pre @ [Recipe_failed t]"
    "target_error s1 = Some t"
    by auto
  with s' have "\<not> list_ex is_recipe_failed pre \<and>
          events s' = events s @ pre @ [Recipe_failed t, Build_failed (Some t)] \<and>
          target_error s' = Some t"
    by simp
  then show "\<exists>pre t. \<not> list_ex is_recipe_failed pre \<and>
          events s' = events s @ pre @ [Recipe_failed t, Build_failed (Some t)] \<and>
          target_error s' = Some t"
    by blast
  from e show "err = REBUILD_ERROR_EXEC" .
next
  assume "\<not> failed s \<and> ready_queue s = rn # q \<and> recipes s rn = Some r \<and>
    state r \<noteq> RECIPE_COMPLETE \<and>
    failed (snd (scheduler_execute_recipe H (envs n) (fs, s\<lparr>ready_queue := q\<rparr>) rn))"
  then show "scheduler_run H envs (Suc n) (fs, s) =
        Some (REBUILD_ERROR_EXEC,
              fst (scheduler_execute_recipe H (envs n) (fs, s\<lparr>ready_queue := q\<rparr>) rn),
              (snd (scheduler_execute_recipe H (envs n) (fs, s\<lparr>ready_queue := q\<rparr>) rn))
                \<lparr>events := events s @ [Executing (target_name r), Recipe_failed (target_name r),
                                        Build_failed (Some (target_name r))]\<rparr>)"
    by (intro run_returns_after_failure) simp_all
qed

lemma fail_sched_run:
  "map_option (\<lambda>(err, fs, s). (err, failed s, target_error s, events s, ready_queue s))
     (scheduler_run pad_hash (\<lambda>_. env0) 2 (empty_fs, fail_sched)) =
   Some (REBUILD_ERROR_EXEC, True, Some ''q'',
         [Executing ''q'', Recipe_failed ''q'', Build_failed (Some ''q'')], [''p''])"
  apply (simp add: scheduler_run_def)
  apply (subst scheduler_run_loop.simps)
  apply (simp add: fail_sched_def scheduler_create_def queue_is_empty_def recipe_create_def
      numeral_2_eq_2)
  apply (simp add: scheduler_execute_recipe_def prepare_directories_def Let_def
      recipe_set_output_dir_def ensure_directory_def stat_def empty_fs_def
      storage_get_tmp_dir_def example_storage_def env0_def set_create_def
      umka_resume_fiber_def)
  apply (simp add: scheduler_on_recipe_complete_def Let_def set_recipe_state_def)
  apply (subst scheduler_run_loop.simps)
  apply (simp add: queue_is_empty_def)
  done

theorem failure_stops_the_build_witness:
  "recipes fail_sched ''q'' = Some (recipe_create ''q'') \<and> \<not> failed fail_sched \<and>
   map_option (\<lambda>(err, fs, s). (err, failed s, target_error s, events s, ready_queue s))
     (scheduler_run pad_hash (\<lambda>_. env0) 2 (empty_fs, fail_sched)) =
   Some (REBUILD_ERROR_EXEC, True, Some ''q'',
         [Executing ''q'', Recipe_failed ''q'', Build_failed (Some ''q'')], [''p''])"
proof -
  have 1: "recipes fail_sched ''q'' = Some (recipe_create ''q'')" "\<not> failed fail_sched"
    by (simp_all add: fail_sched_def scheduler_create_def)
  obtain err fs' s' where r: "scheduler_run pad_hash (\<lambda>_. env0) 2 (empty_fs, fail_sched) = Some (err, fs', s')"
    using fail_sched_run by (cases "scheduler_run pad_hash (\<lambda>_. env0) 2 (empty_fs, fail_sched)") auto
  with fail_sched_run have f: "failed s'" by simp
  from failure_stops_the_build [where s = fail_sched and rn = "''q''" and r = "recipe_create ''q''"
      and H = pad_hash and env = env0 and fs = empty_fs and envs = "\<lambda>_. env0" and n = 2
      and err = err and fs' = fs' and s' = s'] 1 r f
  have "err = REBUILD_ERROR_EXEC" by blast
  with 1 fail_sched_run show ?thesis by simp
qed

section \<open>The invariant of the recipes\<close>

text \<open>
  Every operation of the scheduler keeps \<open>sched_inv\<close>, which holds after
  \<open>scheduler_create\<close>; so it holds in every state that a build reaches.
\<close>

lemma sched_inv_mark_completed:
  "sched_inv s \<Longrightarrow> sched_inv (scheduler_mark_completed s tn p)"
  by (auto simp: sched_inv_def scheduler_mark_completed_def)

lemma sched_inv_check_cache:
  assumes "sched_inv s"
  shows "sched_inv (snd (scheduler_check_cache H fs s rn))"
proof (cases "recipes s rn")
  case None
  then show ?thesis using assms by (simp add: scheduler_check_cache_def)
next
  case (Some r)
  from assms Some have n: "target_name r = rn" "pending_deps r |\<subseteq>| declared_deps r"
    unfolding sched_inv_def by blast+
  let ?r1 = "r\<lparr>r_request_key := hash_data H (bytes_of (target_name r))\<rparr>"
  have 1: "sched_inv (s\<lparr>recipes := (recipes s)(rn \<mapsto> ?r1)\<rparr>)"
    using assms Some unfolding sched_inv_def by auto
  have 2: "sched_inv ((s\<lparr>recipes := (recipes s)(rn \<mapsto> ?r1\<lparr>state := RECIPE_COMPLETE\<rparr>)\<rparr>)
                        \<lparr>completed := (completed s)(rn \<mapsto> p)\<rparr>)" for p
    using assms Some unfolding sched_inv_def by auto
  show ?thesis
    using Some 1 2 n(1)
    by (auto simp: scheduler_check_cache_def Let_def scheduler_mark_completed_def
        split: option.splits)
qed

lemma sched_inv_resume: "sched_inv s \<Longrightarrow> sched_inv (scheduler_resume_recipe s rn)"
  by (auto simp: scheduler_resume_recipe_def sched_inv_queue_push sched_inv_set_state
      split: option.splits)

lemma sched_inv_notify_all: "sched_inv s \<Longrightarrow> sched_inv (waiter_list_notify_all ws s)"
  unfolding waiter_list_notify_all_def
  by (induction ws arbitrary: s) (simp_all add: sched_inv_resume)

lemma sched_inv_waiting_update: "sched_inv (s\<lparr>waiting := x\<rparr>) = sched_inv s"
  by (simp add: sched_inv_def)

lemma sched_inv_on_recipe_complete:
  assumes "sched_inv (snd w)"
  shows "sched_inv (snd (scheduler_on_recipe_complete H env w rn success))"
proof (cases "recipes (snd w) rn")
  case None
  then show ?thesis using assms by (simp add: scheduler_on_recipe_complete_def)
next
  case (Some r)
  from assms Some have n: "target_name r = rn" unfolding sched_inv_def by blast
  let ?s = "snd w"
  have f: "sched_inv ((?s\<lparr>active_count := a, events := e,
                 recipes := (recipes ?s)(rn \<mapsto> r\<lparr>state := RECIPE_FAILED\<rparr>)\<rparr>)
               \<lparr>failed := True, target_error := t\<rparr>)" for a e t
    using assms Some unfolding sched_inv_def by auto
  have c: "sched_inv (scheduler_mark_completed
             (?s\<lparr>active_count := a, events := e,
                 recipes := (recipes ?s)(rn \<mapsto> r\<lparr>state := RECIPE_COMPLETE\<rparr>)\<rparr>) rn p)" for a e p
    using assms Some unfolding sched_inv_def scheduler_mark_completed_def by auto
  show ?thesis
    using Some n f c
    by (auto simp: scheduler_on_recipe_complete_def Let_def set_recipe_state_def
        sched_inv_notify_all sched_inv_waiting_update split: option.splits)
qed

lemma sched_inv_run_script:
  "sched_inv (snd w) \<Longrightarrow> sched_inv (snd (snd (run_script cb k rn w)))"
proof (induction k arbitrary: w)
  case (Finish ok)
  then show ?case by simp
next
  case (Depend_on tn k)
  obtain path s' where r: "scheduler_on_depend_request (snd w) rn tn = (path, s')"
    by (cases "scheduler_on_depend_request (snd w) rn tn")
  with sched_inv_depend_request [OF Depend_on.prems, of rn tn] have "sched_inv s'" by simp
  with Depend_on.IH [of "k path" "(fst w, s')"] Depend_on.IH [of "k None" w] Depend_on.prems
  show ?case by (cases cb) (simp_all add: r)
next
  case (Register_dep p k)
  let ?s = "case recipes (snd w) rn of None \<Rightarrow> snd w
            | Some recipe \<Rightarrow> (snd w)\<lparr>recipes := (recipes (snd w))(rn \<mapsto> recipe_add_dependency recipe p)\<rparr>"
  have "sched_inv ?s"
    using Register_dep.prems by (auto simp: sched_inv_add_dependency split: option.splits)
  with Register_dep.IH [of "(fst w, ?s)"] show ?case by simp
next
  case (Host_io e k)
  from Host_io.IH [of "(e (fst w), snd w)"] Host_io.prems show ?case by simp
qed

lemma sched_inv_resume_fiber:
  "sched_inv (snd w) \<Longrightarrow> sched_inv (snd (snd (umka_resume_fiber env k rn w)))"
  by (simp add: umka_resume_fiber_def sched_inv_run_script)

lemma sched_inv_execute_recipe:
  assumes "sched_inv (snd w)"
  shows "sched_inv (snd (scheduler_execute_recipe H env w rn))"
proof (cases "recipes (snd w) rn")
  case None
  then show ?thesis using assms by (simp add: scheduler_execute_recipe_def)
next
  case (Some r)
  obtain r1 fs1 where tmp: "prepare_directories env (storage (snd w)) (fst w)
      (r\<lparr>state := RECIPE_RUNNING, start_time := hrtime_start env div 1000000\<rparr>) = (r1, fs1)"
    by (metis surj_pair)
  have n1: "target_name r1 = target_name r" "state r1 = RECIPE_RUNNING"
    "pending_deps r1 = pending_deps r" "declared_deps r1 = declared_deps r"
    using tmp
    by (auto simp: prepare_directories_def Let_def recipe_set_output_dir_def
        split: option.splits prod.splits)
  define s1 where "s1 = (snd w)\<lparr>events := events (snd w) @ [Executing (target_name r)],
                      active_count := active_count (snd w) + 1,
                      recipes := (recipes (snd w))(rn \<mapsto> r1)\<rparr>"
  have i1: "sched_inv s1"
    using assms Some n1 unfolding sched_inv_def s1_def by auto
  have ex: "scheduler_execute_recipe H env w rn =
      (case (umka s1, registry s1) of
               (Some functions, Some targets) \<Rightarrow>
                 (case targets (target_name r) of
                    None \<Rightarrow> scheduler_on_recipe_complete H env (fs1, s1) rn False
                  | Some function_name \<Rightarrow>
                      (case functions function_name of
                         None \<Rightarrow> scheduler_on_recipe_complete H env (fs1, s1) rn False
                       | Some fiber \<Rightarrow>
                           (case umka_resume_fiber env fiber rn (fs1, s1) of
                              (success, w2) \<Rightarrow> scheduler_on_recipe_complete H env w2 rn success)))
             | _ \<Rightarrow> scheduler_on_recipe_complete H env (fs1, s1) rn False)"
    using Some unfolding s1_def
    by (auto simp: scheduler_execute_recipe_def Let_def tmp split: option.splits)
  have a: "sched_inv (snd (scheduler_on_recipe_complete H env (fs1, s1) rn False))"
    using i1 by (intro sched_inv_on_recipe_complete) simp
  have b: "sched_inv (snd (case umka_resume_fiber env k rn (fs1, s1) of
                       (success, w2) \<Rightarrow> scheduler_on_recipe_complete H env w2 rn success))" for k
  proof -
    obtain c fs2 s2 where rs: "umka_resume_fiber env k rn (fs1, s1) = (c, fs2, s2)"
      by (metis surj_pair)
    from sched_inv_resume_fiber [of "(fs1, s1)" env k rn] i1 rs have "sched_inv s2" by simp
    then show ?thesis
      by (simp add: rs) (intro sched_inv_on_recipe_complete, simp)
  qed
  show ?thesis unfolding ex using a b by (simp split: option.splits)
qed

lemma sched_inv_run_loop:
  "scheduler_run_loop H envs n w = Some w' \<Longrightarrow> sched_inv (snd w) \<Longrightarrow> sched_inv (snd w')"
proof (induction n arbitrary: w)
  case 0
  then show ?case by (subst (asm) scheduler_run_loop.simps) (simp split: if_splits)
next
  case (Suc m)
  have q: "sched_inv (snd (fst w, (snd w)\<lparr>ready_queue := tl (ready_queue (snd w))\<rparr>))"
    using Suc.prems(2) by (simp add: sched_inv_def)
  from Suc.prems(1) show ?case
    apply (subst (asm) scheduler_run_loop.simps)
    apply (simp add: Let_def split: if_splits option.splits)
    using Suc.prems(2) apply simp
    using Suc.IH q apply blast
    using Suc.IH q apply blast
    using Suc.IH [OF _ sched_inv_execute_recipe [OF q]] apply blast
    done
qed

end
